theory Spec2Isabelle
  imports Complex_Main
begin

section \<open>Prioritized experience replay (mlpack, prioritized\_replay.hpp)\<close>

text \<open>
  The class \<^verbatim>\<open>PrioritizedReplay\<close> keeps a circular store of transitions together with
  a sum tree of priorities. The development follows the header file function by function.

  Conventions of the embedding:
  \<^item> a finite \<^verbatim>\<open>double\<close> is a \<open>real\<close>, and the arithmetic on finite doubles is exact:
    the rounding of a sum, product or quotient and the overflow of a result are not
    modelled, so a statement below is about the program only where the numbers involved
    are computed without rounding; the weights of \<^verbatim>\<open>Sample\<close>, where a quotient by zero
    or \<^verbatim>\<open>pow\<close> can leave the finite doubles, are values of \<open>xdouble\<close> (finite, the two
    infinities, NaN; zero is taken as \<open>+0\<close>); the conversion of an unsigned 64-bit
    integer to \<^verbatim>\<open>double\<close> rounds to nearest, ties to even (\<open>uword_to_double\<close>);
  \<^item> \<^verbatim>\<open>size_t\<close> and the elements of \<^verbatim>\<open>arma::uvec\<close> are \<open>nat\<close>; the one place where a
    \<^verbatim>\<open>size_t\<close> can wrap (the subtraction in \<^verbatim>\<open>sampleProportional\<close>) has the wrap-around
    written out modulo \<open>2 ^ 64\<close>; \<^verbatim>\<open>int\<close> has 32 bits and its overflow is a failure;
  \<^item> Armadillo containers are lists; a checked access \<^verbatim>\<open>v(i)\<close> out of range is the
    failure \<open>IndexOutOfRange\<close>, an unchecked read \<^verbatim>\<open>v[i]\<close> out of range is the failure
    \<open>UncheckedRead\<close>;
  \<^item> a member function that mutates the object returns an \<open>outcome\<close>: either it ran to
    completion (\<open>Done\<close>) or an exception left it (\<open>Raised\<close>); both carry the state of the
    object at that moment, since the assignments made before an exception stay in place;
  \<^item> \<^verbatim>\<open>arma::randu()\<close> is a parameter \<open>rnd\<close>: \<open>rnd k\<close> is the value of the \<open>k\<close>-th draw
    of the call.
\<close>

subsection \<open>Failures\<close>

text \<open>
  \<open>EmptyBufferError\<close> and \<open>InvalidConfiguration\<close> are the error kinds the specification
  names for an empty buffer and for a bad configuration. No statement of the header
  raises them; they are part of the type so that this can be said.
\<close>

datatype error =
    IndexOutOfRange
  | ContractViolation
  | DimensionMismatch
  | SignedOverflow
  | UncheckedRead
  | EmptyObject
  | EmptyBufferError
  | InvalidConfiguration

datatype 'b outcome = Done 'b | Raised error 'b

fun state_of :: "'b outcome \<Rightarrow> 'b" where
  "state_of (Done b) = b"
| "state_of (Raised e b) = b"

subsection \<open>The sum tree\<close>

text \<open>
  Modelled from the spec: the class \<^verbatim>\<open>SumTree\<close> (its constructor, the element access
  \<^verbatim>\<open>idxSum[i]\<close> for reading and for writing, \<^verbatim>\<open>sum()\<close>, \<^verbatim>\<open>sum(lo, hi)\<close> and
  \<^verbatim>\<open>findPrefixSum(mass)\<close>) is used by the header but defined nowhere in the sources.
  The specification describes it as an array of \<open>2 * size\<close> numbers, used from index 1:
  the leaves are the entries \<open>size ..< 2 * size\<close>, every entry below \<open>size\<close> holds the sum
  of its two children, and the root is entry 1. Leaf \<open>i\<close> belongs to slot \<open>i\<close> of the
  buffer for \<open>i < capacity\<close>; the specification's \<open>Update\<close> requires \<open>index < capacity\<close> and
  its \<open>FindPrefixSum\<close> clamps to leaf \<open>capacity - 1\<close>, so the tree records the capacity of
  the buffer it serves (\<open>st_capacity\<close>) beside the leaf count, which is the one number
  the header passes (\<^verbatim>\<open>new SumTree(size)\<close>).
\<close>

record SumTree =
  st_size :: nat
  st_capacity :: nat
  tree :: "real list"

definition new_SumTree :: "nat \<Rightarrow> nat \<Rightarrow> SumTree" where
  "new_SumTree n cap = \<lparr> st_size = n, st_capacity = cap, tree = replicate (2 * n) 0 \<rparr>"

text \<open>
  Modelled from the spec: the upward pass of \<open>Update\<close> (``recomputes every ancestor as
  the sum of its two children, up to the root'').
\<close>

fun recompute :: "nat \<Rightarrow> real list \<Rightarrow> real list" where
  "recompute node tr =
     (if node = 0 then tr
      else recompute (node div 2) (tr[node := tr ! (2 * node) + tr ! (2 * node + 1)]))"

declare recompute.simps [simp del]

text \<open>
  Modelled from the spec: \<open>Update(index, value)\<close>, written \<^verbatim>\<open>idxSum[index] = value\<close> in the
  header. The specification requires \<open>index < capacity\<close>; an index at or beyond the
  capacity is a contract violation.
\<close>

definition st_update :: "SumTree \<Rightarrow> nat \<Rightarrow> real \<Rightarrow> error + SumTree" where
  "st_update t index v =
     (if st_capacity t \<le> index then Inl ContractViolation
      else let leaf = st_size t + index
           in Inr (t\<lparr> tree := recompute (leaf div 2) ((tree t)[leaf := v]) \<rparr>))"

text \<open>
  Modelled from the spec: the value of leaf \<open>index\<close>, written \<^verbatim>\<open>idxSum[index]\<close> in the
  header.
\<close>

definition st_get :: "SumTree \<Rightarrow> nat \<Rightarrow> error + real" where
  "st_get t index =
     (if st_size t \<le> index then Inl ContractViolation
      else Inr (tree t ! (st_size t + index)))"

text \<open>Modelled from the spec: \<open>Total()\<close>, the value of the root; \<^verbatim>\<open>idxSum.sum()\<close>.\<close>

definition st_total :: "SumTree \<Rightarrow> real" where
  "st_total t = tree t ! 1"

text \<open>
  Modelled from the spec: \<open>RangeSum(lo, hi)\<close>, the sum of the leaves \<open>lo .. hi\<close>, both
  included; 0 for an empty range; \<^verbatim>\<open>idxSum.sum(lo, hi)\<close>. An upper index outside the
  tree is a contract violation.
\<close>

definition st_sum :: "SumTree \<Rightarrow> nat \<Rightarrow> nat \<Rightarrow> error + real" where
  "st_sum t lo hi =
     (if hi < lo then Inr 0
      else if st_size t \<le> hi then Inl ContractViolation
      else Inr (\<Sum>j\<leftarrow>[lo..<Suc hi]. tree t ! (st_size t + j)))"

text \<open>
  Modelled from the spec: the descent of \<open>FindPrefixSum\<close>. At an internal node the mass
  goes left when it is below the left child's value; otherwise the left child's value is
  subtracted and the descent goes right. Node 0 is not a node of the tree; the descent
  starts at the root, node 1.
\<close>

function descend :: "nat \<Rightarrow> real list \<Rightarrow> nat \<Rightarrow> real \<Rightarrow> nat" where
  "descend sz tr node mass =
     (if 0 < node \<and> node < sz then
        (if mass < tr ! (2 * node) then descend sz tr (2 * node) mass
         else descend sz tr (2 * node + 1) (mass - tr ! (2 * node)))
      else node)"
  by pat_completeness auto
termination
  by (relation "measure (\<lambda>(sz, tr, node, mass). sz - node)") auto

declare descend.simps [simp del]

text \<open>
  Modelled from the spec: \<open>FindPrefixSum(mass)\<close>. A mass that equals or exceeds the
  total is clamped to the rightmost valid leaf, \<open>capacity - 1\<close>.
\<close>

definition findPrefixSum :: "SumTree \<Rightarrow> real \<Rightarrow> nat" where
  "findPrefixSum t mass =
     (if st_total t \<le> mass then st_capacity t - 1
      else descend (st_size t) (tree t) 1 mass - st_size t)"

subsection \<open>The replay buffer\<close>

text \<open>
  The data members of the class. \<open>dimension\<close> is the number of rows of the matrices
  \<^verbatim>\<open>states\<close> and \<^verbatim>\<open>nextStates\<close>, whose columns are the lists \<open>states\<close> and \<open>nextStates\<close>.
\<close>

record PrioritizedReplay =
  alpha :: real
  max_priority :: real
  idxSum :: SumTree
  batchSize :: nat
  capacity :: nat
  position :: nat
  dimension :: nat
  states :: "real list list"
  actions :: "int list"
  rewards :: "real list"
  nextStates :: "real list list"
  isTerminal :: "int list"
  full :: bool

text \<open>
  The loop of the constructor, \<^verbatim>\<open>int size = 1; while (size < capacity) size *= 2;\<close>.
  The doubling of an \<^verbatim>\<open>int\<close> beyond \<open>2 ^ 31 - 1\<close> is the failure \<open>SignedOverflow\<close>. The loop
  as such need not end (it would not from \<open>size = 0\<close>), so not returning is the value
  \<open>None\<close>.
\<close>

partial_function (option) size_loop :: "nat \<Rightarrow> nat \<Rightarrow> (error + nat) option" where
  "size_loop sz cap =
     (if sz < cap then
        (if 2 ^ 31 - 1 < 2 * sz then Some (Inl SignedOverflow) else size_loop (2 * sz) cap)
      else Some (Inr sz))"

text \<open>
  The constructor. The containers are created with \<open>capacity\<close> columns or elements; their
  initial content is taken to be zero.
\<close>

definition new_PrioritizedReplay ::
    "nat \<Rightarrow> nat \<Rightarrow> real \<Rightarrow> nat \<Rightarrow> (error + PrioritizedReplay) option" where
  "new_PrioritizedReplay batchSize' capacity' alpha' dimension' =
     (case size_loop 1 capacity' of
        None \<Rightarrow> None
      | Some (Inl e) \<Rightarrow> Some (Inl e)
      | Some (Inr sz) \<Rightarrow> Some (Inr
          \<lparr> alpha = alpha',
            max_priority = 1,
            idxSum = new_SumTree sz capacity',
            batchSize = batchSize',
            capacity = capacity',
            position = 0,
            dimension = dimension',
            states = replicate capacity' (replicate dimension' 0),
            actions = replicate capacity' 0,
            rewards = replicate capacity' 0,
            nextStates = replicate capacity' (replicate dimension' 0),
            isTerminal = replicate capacity' 0,
            full = False \<rparr>))"

text \<open>
  \<^verbatim>\<open>Store\<close>. The arguments \<open>state\<close> and \<open>nextState\<close> are the encoded vectors
  \<^verbatim>\<open>state.Encode()\<close> and \<^verbatim>\<open>nextState.Encode()\<close>. The five assignments come first, then
  the leaf of the tree, then the cursor. The priority written to the tree is the product
  \<^verbatim>\<open>max_priority * alpha\<close>.
\<close>

definition Store ::
    "real list \<Rightarrow> int \<Rightarrow> real \<Rightarrow> real list \<Rightarrow> bool \<Rightarrow> PrioritizedReplay \<Rightarrow> PrioritizedReplay outcome"
where
  "Store state action reward nextState isEnd b =
     (if capacity b \<le> position b then Raised IndexOutOfRange b
      else if length state \<noteq> dimension b then Raised DimensionMismatch b
      else
        let b1 = b\<lparr> states := (states b)[position b := state],
                    actions := (actions b)[position b := action],
                    rewards := (rewards b)[position b := reward] \<rparr>
        in if length nextState \<noteq> dimension b then Raised DimensionMismatch b1
           else
             let b2 = b1\<lparr> nextStates := (nextStates b1)[position b := nextState],
                          isTerminal := (isTerminal b1)[position b := (if isEnd then 1 else 0)] \<rparr>
             in case st_update (idxSum b2) (position b2) (max_priority b2 * alpha b2) of
                  Inl e \<Rightarrow> Raised e b2
                | Inr t \<Rightarrow>
                    let b3 = b2\<lparr> idxSum := t, position := position b2 + 1 \<rparr>
                    in if position b3 = capacity b3
                       then Done (b3\<lparr> full := True, position := 0 \<rparr>)
                       else Done b3)"

text \<open>
  A caller that stores a list of transitions, one call of \<^verbatim>\<open>Store\<close> after the other;
  an exception ends the run.
\<close>

type_synonym transition = "real list \<times> int \<times> real \<times> real list \<times> bool"

fun StoreAll :: "transition list \<Rightarrow> PrioritizedReplay \<Rightarrow> PrioritizedReplay outcome" where
  "StoreAll [] b = Done b"
| "StoreAll ((state, action, reward, nextState, isEnd) # ts) b =
     (case Store state action reward nextState isEnd b of
        Done b' \<Rightarrow> StoreAll ts b'
      | Raised e b' \<Rightarrow> Raised e b')"

text \<open>The transition held by slot \<open>j\<close> of the five containers.\<close>

definition slot :: "PrioritizedReplay \<Rightarrow> nat \<Rightarrow> transition" where
  "slot b j = (states b ! j, actions b ! j, rewards b ! j, nextStates b ! j, isTerminal b ! j \<noteq> 0)"

text \<open>
  The number of populated slots, \<^verbatim>\<open>full ? capacity : position\<close>, which \<^verbatim>\<open>Sample\<close> calls
  \<^verbatim>\<open>upperBound\<close> and \<^verbatim>\<open>num_sample\<close>.
\<close>

definition upperBound :: "PrioritizedReplay \<Rightarrow> nat" where
  "upperBound b = (if full b then capacity b else position b)"

text \<open>
  The loop of \<^verbatim>\<open>sampleProportional\<close>: stratum \<open>bt\<close> draws one mass and resolves it in
  the tree. The mass is the exact value of \<^verbatim>\<open>randu() * sumPerRange + bt * sumPerRange\<close>;
  the header computes it in \<^verbatim>\<open>double\<close>, where each operation rounds, so that its mass
  can differ from this one in the last place and can reach the total for a draw below 1.
\<close>

function sample_loop ::
    "(nat \<Rightarrow> real) \<Rightarrow> SumTree \<Rightarrow> real \<Rightarrow> nat \<Rightarrow> nat \<Rightarrow> nat list \<Rightarrow> nat list" where
  "sample_loop rnd t sumPerRange n bt idxes =
     (if bt < n then
        (let mass = rnd bt * sumPerRange + real bt * sumPerRange;
             idx = findPrefixSum t mass
         in sample_loop rnd t sumPerRange n (bt + 1) (idxes[bt := idx]))
      else idxes)"
  by pat_completeness auto
termination
  by (relation "measure (\<lambda>(rnd, t, sumPerRange, n, bt, idxes). n - bt)") auto

declare sample_loop.simps [simp del]

text \<open>
  \<^verbatim>\<open>sampleProportional\<close>. The upper index of the range sum is computed in \<^verbatim>\<open>size_t\<close>, so
  for an empty buffer \<open>0 - 1\<close> wraps to \<open>2 ^ 64 - 1\<close>. There is no test for an empty
  buffer. With \<open>batchSize = 0\<close> the quotient is not used.
\<close>

definition sampleProportional :: "(nat \<Rightarrow> real) \<Rightarrow> PrioritizedReplay \<Rightarrow> error + nat list" where
  "sampleProportional rnd b =
     (let hi = ((if full b then capacity b else position b) + 2 ^ 64 - 1) mod 2 ^ 64
      in case st_sum (idxSum b) 0 hi of
           Inl e \<Rightarrow> Inl e
         | Inr totalSum \<Rightarrow>
             let sumPerRange = totalSum / real (batchSize b)
             in Inr (sample_loop rnd (idxSum b) sumPerRange (batchSize b) 0
                       (replicate (batchSize b) 0)))"

text \<open>
  The values a \<^verbatim>\<open>double\<close> can take in the weight computation of \<^verbatim>\<open>Sample\<close>: a finite
  number, an infinity or NaN.
\<close>

datatype xdouble = Fin real | PInf | NInf | NaN

text \<open>IEEE division.\<close>

fun xdiv :: "xdouble \<Rightarrow> xdouble \<Rightarrow> xdouble" where
  "xdiv (Fin a) (Fin b) =
     (if b \<noteq> 0 then Fin (a / b)
      else if a = 0 then NaN
      else if 0 < a then PInf else NInf)"
| "xdiv (Fin a) PInf = Fin 0"
| "xdiv (Fin a) NInf = Fin 0"
| "xdiv PInf (Fin b) = (if 0 \<le> b then PInf else NInf)"
| "xdiv NInf (Fin b) = (if 0 \<le> b then NInf else PInf)"
| "xdiv PInf PInf = NaN"
| "xdiv PInf NInf = NaN"
| "xdiv NInf PInf = NaN"
| "xdiv NInf NInf = NaN"
| "xdiv NaN y = NaN"
| "xdiv x NaN = NaN"

text \<open>The IEEE comparison \<^verbatim>\<open>x > y\<close>, false when either side is NaN.\<close>

fun xgt :: "xdouble \<Rightarrow> xdouble \<Rightarrow> bool" where
  "xgt (Fin a) (Fin b) = (b < a)"
| "xgt (Fin a) NInf = True"
| "xgt PInf (Fin b) = True"
| "xgt PInf NInf = True"
| "xgt x y = False"

text \<open>
  The product \<^verbatim>\<open>num_sample * p_sample\<close> of a \<^verbatim>\<open>size_t\<close> and a \<^verbatim>\<open>double\<close>; zero times an
  infinity is NaN.
\<close>

fun dscale :: "nat \<Rightarrow> xdouble \<Rightarrow> xdouble" where
  "dscale n (Fin x) = Fin (real n * x)"
| "dscale n PInf = (if n = 0 then NaN else PInf)"
| "dscale n NInf = (if n = 0 then NaN else NInf)"
| "dscale n NaN = NaN"

text \<open>
  The C function \<^verbatim>\<open>pow\<close> for a finite exponent \<open>y\<close>, with the special cases of the C
  standard: exponent 0 gives 1 for every base, NaN too; base 0 gives \<open>+\<infinity>\<close> for a negative
  exponent and 0 for a positive one; a negative finite base is defined for an integer
  exponent only.
\<close>

fun dpow :: "xdouble \<Rightarrow> real \<Rightarrow> xdouble" where
  "dpow (Fin a) y =
     (if y = 0 then Fin 1
      else if 0 < a then Fin (a powr y)
      else if a = 0 then (if y < 0 then PInf else Fin 0)
      else if y = of_int \<lfloor>y\<rfloor> then Fin (a powi \<lfloor>y\<rfloor>)
      else NaN)"
| "dpow PInf y = (if y = 0 then Fin 1 else if y < 0 then Fin 0 else PInf)"
| "dpow NInf y =
     (if y = 0 then Fin 1
      else if y < 0 then Fin 0
      else if y = of_int \<lfloor>y\<rfloor> \<and> odd \<lfloor>y\<rfloor> then NInf else PInf)"
| "dpow NaN y = (if y = 0 then Fin 1 else NaN)"

text \<open>
  The loop of \<^verbatim>\<open>Sample\<close> that computes the weights. \<open>weights\<close> is the vector the caller
  passed in; the header does not resize it, and \<^verbatim>\<open>weights(i)\<close> is a checked access. The
  quotient by a zero total and the power of a zero base are computed as the C program
  computes them; nothing here raises.
\<close>

function weight_loop ::
    "SumTree \<Rightarrow> nat list \<Rightarrow> nat \<Rightarrow> real \<Rightarrow> nat \<Rightarrow> xdouble list \<Rightarrow> error + xdouble list"
where
  "weight_loop t sampledIndices num_sample beta i weights =
     (if i < length sampledIndices then
        (case st_get t (sampledIndices ! i) of
           Inl e \<Rightarrow> Inl e
         | Inr leaf \<Rightarrow>
             let p_sample = xdiv (Fin leaf) (Fin (st_total t));
                 w = dpow (dscale num_sample p_sample) (- beta)
             in if length weights \<le> i then Inl IndexOutOfRange
                else weight_loop t sampledIndices num_sample beta (i + 1) (weights[i := w]))
      else Inr weights)"
  by pat_completeness auto
termination
  by (relation "measure (\<lambda>(t, sampledIndices, num_sample, beta, i, weights). length sampledIndices - i)")
     auto

declare weight_loop.simps [simp del]

text \<open>
  \<^verbatim>\<open>weights.max()\<close> as Armadillo computes it: a running maximum that starts at \<open>-\<infinity>\<close> and
  is replaced by every element greater than it, so that a NaN element is passed over.
\<close>

definition max_elem :: "xdouble list \<Rightarrow> xdouble" where
  "max_elem ws = foldl (\<lambda>m x. if xgt x m then x else m) NInf ws"

text \<open>
  \<^verbatim>\<open>weights /= weights.max()\<close>: every element of the vector is divided by the maximum of
  the whole vector. The maximum of a vector without elements is an Armadillo error.
\<close>

definition normalize :: "xdouble list \<Rightarrow> error + xdouble list" where
  "normalize ws =
     (if ws = [] then Inl EmptyObject
      else Inr (map (\<lambda>w. xdiv w (max_elem ws)) ws))"

text \<open>What \<^verbatim>\<open>Sample\<close> writes to its seven reference parameters.\<close>

record batch =
  sampledStates :: "real list list"
  sampledActions :: "int list"
  sampledRewards :: "real list"
  sampledNextStates :: "real list list"
  sampledTerminal :: "int list"
  sampledIndices :: "nat list"
  weights :: "xdouble list"

text \<open>
  \<^verbatim>\<open>Sample\<close>. \<open>weights0\<close> is the content of the parameter \<^verbatim>\<open>weights\<close> at the call,
  taken to be finite numbers. The six other outputs are assigned as a whole; \<^verbatim>\<open>weights\<close>
  is assigned element by element, for the sampled indices only, and then divided by its
  maximum. The gathering of the five fields is bounds-checked by Armadillo against the
  container size, which is \<open>capacity\<close>. The object itself is not changed.
\<close>

definition Sample ::
    "real list \<Rightarrow> real \<Rightarrow> (nat \<Rightarrow> real) \<Rightarrow> PrioritizedReplay \<Rightarrow> error + batch" where
  "Sample weights0 beta rnd b =
     (case sampleProportional rnd b of
        Inl e \<Rightarrow> Inl e
      | Inr idxes \<Rightarrow>
          if \<exists>i \<in> set idxes. capacity b \<le> i then Inl IndexOutOfRange
          else
            let num_sample = (if full b then capacity b else position b)
            in case weight_loop (idxSum b) idxes num_sample beta 0 (map Fin weights0) of
                 Inl e \<Rightarrow> Inl e
               | Inr ws \<Rightarrow>
                   (case normalize ws of
                      Inl e \<Rightarrow> Inl e
                    | Inr ws' \<Rightarrow> Inr
                        \<lparr> sampledStates = map (\<lambda>i. states b ! i) idxes,
                          sampledActions = map (\<lambda>i. actions b ! i) idxes,
                          sampledRewards = map (\<lambda>i. rewards b ! i) idxes,
                          sampledNextStates = map (\<lambda>i. nextStates b ! i) idxes,
                          sampledTerminal = map (\<lambda>i. isTerminal b ! i) idxes,
                          sampledIndices = idxes,
                          weights = ws' \<rparr>))"

text \<open>
  The conversion of an unsigned 64-bit integer to \<^verbatim>\<open>double\<close>: exact below \<open>2 ^ 53\<close>;
  above, the \<open>excess_bits\<close> low bits that do not fit the 53-bit significand are rounded
  off, to nearest, ties to even.
\<close>

fun excess_bits :: "nat \<Rightarrow> nat" where
  "excess_bits n = (if n < 2 ^ 53 then 0 else Suc (excess_bits (n div 2)))"

declare excess_bits.simps [simp del]

definition uword_to_double :: "nat \<Rightarrow> real" where
  "uword_to_double n =
     (let e = excess_bits n; q = n div 2 ^ e; r = n mod 2 ^ e
      in if 2 * r < 2 ^ e then real (q * 2 ^ e)
         else if 2 ^ e < 2 * r then real ((q + 1) * 2 ^ e)
         else if even q then real (q * 2 ^ e)
         else real ((q + 1) * 2 ^ e))"

text \<open>
  \<^verbatim>\<open>update_priorities\<close>. Both parameters are \<^verbatim>\<open>arma::uvec\<close>, vectors of unsigned integers.
  The loop runs over \<open>indices\<close>; \<^verbatim>\<open>priorities[i]\<close> is an unchecked read. The leaf is
  written first, with the product \<^verbatim>\<open>alpha * priorities[i]\<close>, then the running maximum is
  raised; in both, the priority is converted to \<^verbatim>\<open>double\<close>. The header has no test of the
  index against the cursor or the capacity; the only test is the one of the tree.
\<close>

function update_loop ::
    "nat list \<Rightarrow> nat list \<Rightarrow> nat \<Rightarrow> PrioritizedReplay \<Rightarrow> PrioritizedReplay outcome" where
  "update_loop indices priorities i b =
     (if i < length indices then
        (if length priorities \<le> i then Raised UncheckedRead b
         else case st_update (idxSum b) (indices ! i) (alpha b * uword_to_double (priorities ! i)) of
                Inl e \<Rightarrow> Raised e b
              | Inr t \<Rightarrow>
                  update_loop indices priorities (i + 1)
                    (b\<lparr> idxSum := t,
                       max_priority := max (max_priority b) (uword_to_double (priorities ! i)) \<rparr>))
      else Done b)"
  by pat_completeness auto
termination
  by (relation "measure (\<lambda>(indices, priorities, i, b). length indices - i)") auto

declare update_loop.simps [simp del]

definition update_priorities ::
    "nat list \<Rightarrow> nat list \<Rightarrow> PrioritizedReplay \<Rightarrow> PrioritizedReplay outcome" where
  "update_priorities indices priorities b = update_loop indices priorities 0 b"

text \<open>
  The three public operations as commands, and the state of the object after a sequence
  of calls. A call that raises leaves the object as it was at the exception. \<^verbatim>\<open>Sample\<close>
  is a function of the object and assigns to none of its members.
\<close>

datatype command =
    CStore "real list" int real "real list" bool
  | CSample "real list" real "nat \<Rightarrow> real"
  | CUpdate "nat list" "nat list"

fun step :: "command \<Rightarrow> PrioritizedReplay \<Rightarrow> PrioritizedReplay" where
  "step (CStore state action reward nextState isEnd) b =
     state_of (Store state action reward nextState isEnd b)"
| "step (CSample weights0 beta rnd) b = b"
| "step (CUpdate indices priorities) b = state_of (update_priorities indices priorities b)"

fun run :: "command list \<Rightarrow> PrioritizedReplay \<Rightarrow> PrioritizedReplay" where
  "run [] b = b"
| "run (c # cs) b = run cs (step c b)"

text \<open>
  The object that the constructor builds for \<open>batchSize = 2\<close>, \<open>capacity = 4\<close>,
  \<open>dimension = 1\<close> and a given \<open>alpha\<close> (the configuration of the specification's
  concrete scenario), for use in examples.
\<close>

definition example_replay :: "real \<Rightarrow> PrioritizedReplay" where
  "example_replay alpha' =
     \<lparr> alpha = alpha',
       max_priority = 1,
       idxSum = \<lparr> st_size = 4, st_capacity = 4, tree = [0, 0, 0, 0, 0, 0, 0, 0] \<rparr>,
       batchSize = 2,
       capacity = 4,
       position = 0,
       dimension = 1,
       states = [[0], [0], [0], [0]],
       actions = [0, 0, 0, 0],
       rewards = [0, 0, 0, 0],
       nextStates = [[0], [0], [0], [0]],
       isTerminal = [0, 0, 0, 0],
       full = False \<rparr>"

text \<open>
  What the constructor establishes and \<^verbatim>\<open>Store\<close> keeps: the cursor is below the capacity,
  the tree serves this capacity, has at least \<open>capacity\<close> leaves and an array of twice its
  leaf count, and the five containers have \<open>capacity\<close> columns or elements.
\<close>

definition store_inv :: "PrioritizedReplay \<Rightarrow> bool" where
  "store_inv b \<longleftrightarrow>
     position b < capacity b \<and> capacity b \<le> st_size (idxSum b) \<and>
     st_capacity (idxSum b) = capacity b \<and>
     length (tree (idxSum b)) = 2 * st_size (idxSum b) \<and>
     length (states b) = capacity b \<and> length (actions b) = capacity b \<and>
     length (rewards b) = capacity b \<and> length (nextStates b) = capacity b \<and>
     length (isTerminal b) = capacity b"

text \<open>A source of random numbers that returns the same value \<open>r\<close> at every draw.\<close>

definition const_draws :: "real \<Rightarrow> nat \<Rightarrow> real" where
  "const_draws r k = r"

text \<open>
  The sum invariant of the specification's tree: the leaf count is a power of two and
  at least the capacity, the array has twice as many entries, every internal node holds the sum of its two children,
  and no leaf is negative.
\<close>

definition tree_inv :: "SumTree \<Rightarrow> bool" where
  "tree_inv t \<longleftrightarrow>
     (\<exists>h. st_size t = 2 ^ h) \<and> st_capacity t \<le> st_size t \<and>
     length (tree t) = 2 * st_size t \<and>
     (\<forall>i. 0 < i \<and> i < st_size t \<longrightarrow> tree t ! i = tree t ! (2 * i) + tree t ! (2 * i + 1)) \<and>
     (\<forall>j < st_size t. 0 \<le> tree t ! (st_size t + j))"

text \<open>The sum of the leaves \<open>0 ..< n\<close> of a tree.\<close>

definition leaf_sum :: "SumTree \<Rightarrow> nat \<Rightarrow> real" where
  "leaf_sum t n = (\<Sum>j\<leftarrow>[0..<n]. tree t ! (st_size t + j))"


text \<open>
  The concrete scenario of the specification: capacity 4, batch size 2, \<open>alpha = 1\<close>; four
  transitions are stored, then the priorities of slots 0 and 2 are set to 3 and 1.
\<close>

definition scenario_replay :: PrioritizedReplay where
  "scenario_replay =
     state_of (update_priorities [0, 2] [3, 1]
       (state_of (StoreAll [([1], 0, 1, [2], False), ([2], 1, 0, [3], False),
          ([3], 0, 1, [4], False), ([4], 1, 1, [5], True)] (example_replay 1))))"

text \<open>
  A buffer that holds one transition whose priority has been set to 0: one \<^verbatim>\<open>Store\<close> into
  the fresh object, then \<^verbatim>\<open>update_priorities\<close> of slot 0 with priority 0.
\<close>

definition zero_mass_replay :: PrioritizedReplay where
  "zero_mass_replay =
     state_of (update_priorities [0] [0] (state_of (Store [1] 0 1 [2] False (example_replay 1))))"

text \<open>
  A full buffer with two different priorities among its first two slots, all of whose
  numbers are powers of two or small integers, so that the header computes on it without
  rounding: capacity 4, batch size 2, \<open>alpha = 1\<close>; four transitions are stored, then the
  priorities of slots 0 and 3 are set to 4 and 2. The leaves are 4, 1, 1, 2.
\<close>

definition dyadic_replay :: PrioritizedReplay where
  "dyadic_replay =
     state_of (update_priorities [0, 3] [4, 2]
       (state_of (StoreAll [([1], 0, 1, [2], False), ([2], 1, 0, [3], False),
          ([3], 0, 1, [4], False), ([4], 1, 1, [5], True)] (example_replay 1))))"

text \<open>
  The invariant of a buffer in use: the containers and the cursor are consistent
  (\<open>store_inv\<close>), the tree satisfies the sum invariant and has at most \<open>2 ^ 30\<close> leaves, and
  neither \<open>alpha\<close> nor the running maximum is negative.
\<close>

definition replay_inv :: "PrioritizedReplay \<Rightarrow> bool" where
  "replay_inv b \<longleftrightarrow>
     store_inv b \<and> tree_inv (idxSum b) \<and> st_size (idxSum b) \<le> 2 ^ 30 \<and>
     0 \<le> alpha b \<and> 0 \<le> max_priority b"

section \<open>Properties\<close>

subsection \<open>The constructor\<close>

lemma size_loop_pow2:
  "cap \<le> 2 ^ 30 \<Longrightarrow> j \<le> 30 \<Longrightarrow> (j = 0 \<or> 2 ^ (j - 1) < cap) \<Longrightarrow>
   \<exists>k. size_loop (2 ^ j) cap = Some (Inr (2 ^ k)) \<and> k \<le> 30 \<and> cap \<le> 2 ^ k \<and> (k = 0 \<or> 2 ^ (k - 1) < cap)"
proof (induction "30 - j" arbitrary: j)
  case 0
  then have j: "j = 30" by simp
  with 0 have "\<not> (2::nat) ^ j < cap" by simp
  then have "size_loop (2 ^ j) cap = Some (Inr (2 ^ j))"
    by (subst size_loop.simps) simp
  with 0 j show ?case by (intro exI [of _ j]) simp
next
  case (Suc d)
  show ?case
  proof (cases "(2::nat) ^ j < cap")
    case False
    then have "size_loop (2 ^ j) cap = Some (Inr (2 ^ j))"
      by (subst size_loop.simps) simp
    with False Suc.prems show ?thesis by (intro exI [of _ j]) simp
  next
    case True
    from Suc.hyps(2) have j: "j < 30" by simp
    then have "(2::nat) ^ Suc j \<le> 2 ^ 30"
      by (intro power_increasing) simp_all
    then have le: "\<not> (2::nat) ^ 31 - 1 < 2 * 2 ^ j" by simp
    have unf: "size_loop (2 ^ j) cap = size_loop (2 ^ Suc j) cap"
      using True le by (subst size_loop.simps) simp
    have "\<exists>k. size_loop (2 ^ Suc j) cap = Some (Inr (2 ^ k)) \<and> k \<le> 30 \<and> cap \<le> 2 ^ k \<and> (k = 0 \<or> 2 ^ (k - 1) < cap)"
      using Suc.hyps(2) Suc.prems(1) j True by (intro Suc.hyps(1)) simp_all
    with unf show ?thesis by simp
  qed
qed

lemma size_loop_1:
  assumes "cap \<le> 2 ^ 30"
  shows "\<exists>k. size_loop 1 cap = Some (Inr (2 ^ k)) \<and> cap \<le> 2 ^ k \<and> (\<forall>m. cap \<le> 2 ^ m \<longrightarrow> (2::nat) ^ k \<le> 2 ^ m)"
proof -
  from size_loop_pow2 [OF assms, of 0]
  obtain k where k: "size_loop 1 cap = Some (Inr (2 ^ k))" "cap \<le> 2 ^ k" "k = 0 \<or> 2 ^ (k - 1) < cap"
    by auto
  have "(2::nat) ^ k \<le> 2 ^ m" if "cap \<le> 2 ^ m" for m
  proof (cases "k = 0")
    case True then show ?thesis by simp
  next
    case False
    from False k(3) have "(2::nat) ^ (k - 1) < cap" by simp
    with that have "(2::nat) ^ (k - 1) < 2 ^ m" by linarith
    then have "k - 1 < m" by (simp add: power_strict_increasing_iff)
    with False have "k \<le> m" by simp
    then show ?thesis by (simp add: power_increasing)
  qed
  with k show ?thesis by blast
qed

lemma new_example: "new_PrioritizedReplay 2 4 al 1 = Some (Inr (example_replay al))"
proof -
  have "size_loop 1 4 = Some (Inr 4)"
    by (simp add: size_loop.simps)
  then show ?thesis
    by (simp add: new_PrioritizedReplay_def new_SumTree_def example_replay_def numeral_eq_Suc)
qed

lemma new_PrioritizedReplay_Some:
  assumes "cap \<le> 2 ^ 30"
  shows "\<exists>k. new_PrioritizedReplay bs cap al dm = Some (Inr
          \<lparr> alpha = al, max_priority = 1, idxSum = new_SumTree (2 ^ k) cap, batchSize = bs,
            capacity = cap, position = 0, dimension = dm,
            states = replicate cap (replicate dm 0), actions = replicate cap 0,
            rewards = replicate cap 0, nextStates = replicate cap (replicate dm 0),
            isTerminal = replicate cap 0, full = False \<rparr>)
        \<and> cap \<le> 2 ^ k \<and> (\<forall>m. cap \<le> 2 ^ m \<longrightarrow> (2::nat) ^ k \<le> 2 ^ m)"
proof -
  from size_loop_1 [OF assms] obtain k where
    "size_loop 1 cap = Some (Inr (2 ^ k))" "cap \<le> 2 ^ k" "\<forall>m. cap \<le> 2 ^ m \<longrightarrow> (2::nat) ^ k \<le> 2 ^ m"
    by blast
  then show ?thesis
    by (intro exI [of _ k]) (simp add: new_PrioritizedReplay_def)
qed

text \<open>
  Claim C8, as the code has it. The constructor validates nothing: for every batch size,
  every dimension, every \<open>alpha\<close> (negative ones too) and every capacity up to \<open>2 ^ 30\<close>
  (zero too) it returns an object, never \<open>InvalidConfiguration\<close>. The tree of that object
  has \<open>2 ^ k\<close> leaves, where \<open>2 ^ k\<close> is the smallest power of two that is at least the
  capacity; the cursor is 0, the buffer is not full and the running maximum is 1.
\<close>

theorem constructor_no_validation_pow2:
  assumes "capacity' \<le> 2 ^ 30"
  shows "\<exists>b k. new_PrioritizedReplay batchSize' capacity' alpha' dimension' = Some (Inr b)
           \<and> st_size (idxSum b) = 2 ^ k \<and> capacity' \<le> 2 ^ k
           \<and> (\<forall>m. capacity' \<le> 2 ^ m \<longrightarrow> (2::nat) ^ k \<le> 2 ^ m)
           \<and> batchSize b = batchSize' \<and> capacity b = capacity' \<and> alpha b = alpha'
           \<and> dimension b = dimension' \<and> position b = 0 \<and> \<not> full b \<and> max_priority b = 1"
proof -
  from new_PrioritizedReplay_Some [OF assms, of batchSize' alpha' dimension']
  obtain k where k:
    "new_PrioritizedReplay batchSize' capacity' alpha' dimension' = Some (Inr
          \<lparr> alpha = alpha', max_priority = 1, idxSum = new_SumTree (2 ^ k) capacity', batchSize = batchSize',
            capacity = capacity', position = 0, dimension = dimension',
            states = replicate capacity' (replicate dimension' 0), actions = replicate capacity' 0,
            rewards = replicate capacity' 0, nextStates = replicate capacity' (replicate dimension' 0),
            isTerminal = replicate capacity' 0, full = False \<rparr>)"
    "capacity' \<le> 2 ^ k" "\<forall>m. capacity' \<le> 2 ^ m \<longrightarrow> (2::nat) ^ k \<le> 2 ^ m"
    by blast
  then show ?thesis
    by (intro exI [of _ "\<lparr> alpha = alpha', max_priority = 1, idxSum = new_SumTree (2 ^ k) capacity',
            batchSize = batchSize', capacity = capacity', position = 0, dimension = dimension',
            states = replicate capacity' (replicate dimension' 0), actions = replicate capacity' 0,
            rewards = replicate capacity' 0, nextStates = replicate capacity' (replicate dimension' 0),
            isTerminal = replicate capacity' 0, full = False \<rparr>"] exI [of _ k])
       (simp add: new_SumTree_def)
qed

theorem constructor_no_validation_pow2_witness:
  "(4::nat) \<le> 2 ^ 30 \<and>
   (\<exists>b k. new_PrioritizedReplay 2 4 1 1 = Some (Inr b)
           \<and> st_size (idxSum b) = 2 ^ k \<and> (4::nat) \<le> 2 ^ k
           \<and> (\<forall>m. (4::nat) \<le> 2 ^ m \<longrightarrow> (2::nat) ^ k \<le> 2 ^ m)
           \<and> batchSize b = 2 \<and> capacity b = 4 \<and> alpha b = 1
           \<and> dimension b = 1 \<and> position b = 0 \<and> \<not> full b \<and> max_priority b = 1)"
  using constructor_no_validation_pow2 [of 4 2 1 1] by simp

text \<open>
  Claim C8 as stated fails: batch size 0, capacity 0, dimension 0 and \<open>alpha = - 1\<close> are
  accepted.
\<close>

theorem constructor_accepts_invalid_configuration:
  "new_PrioritizedReplay 0 0 (- 1) 0 = Some (Inr
      \<lparr> alpha = - 1, max_priority = 1, idxSum = \<lparr> st_size = 1, st_capacity = 0, tree = [0, 0] \<rparr>,
        batchSize = 0, capacity = 0, position = 0, dimension = 0, states = [], actions = [],
        rewards = [], nextStates = [], isTerminal = [], full = False \<rparr>)"
proof -
  have "size_loop 1 0 = Some (Inr 1)"
    by (simp add: size_loop.simps)
  then show ?thesis
    by (simp add: new_PrioritizedReplay_def new_SumTree_def numeral_eq_Suc)
qed

subsection \<open>The upward pass of the tree\<close>

lemma recompute_length: "length (recompute n tr) = length tr"
proof (induction n tr rule: recompute.induct)
  case (1 node tr)
  show ?case
  proof (cases "node = 0")
    case True
    then show ?thesis by (subst recompute.simps) simp
  next
    case False
    with 1 show ?thesis by (subst recompute.simps) simp
  qed
qed

lemma recompute_above: "n < k \<Longrightarrow> recompute n tr ! k = tr ! k"
proof (induction n tr rule: recompute.induct)
  case (1 node tr)
  show ?case
  proof (cases "node = 0")
    case True
    then show ?thesis by (subst recompute.simps) simp
  next
    case False
    from "1.prems" have "node div 2 < k" by simp
    from "1.IH" [OF False this] False "1.prems" show ?thesis
      by (subst recompute.simps) simp
  qed
qed

subsection \<open>The cursor and the full flag\<close>


lemma st_update_size: "st_update t i v = Inr t' \<Longrightarrow> st_size t' = st_size t"
  by (auto simp: st_update_def Let_def split: if_splits)

lemma Store_cursor:
  assumes "position b < capacity b"
  shows "position (state_of (Store s a r n e b)) < capacity (state_of (Store s a r n e b))
       \<and> capacity (state_of (Store s a r n e b)) = capacity b
       \<and> (full b \<longrightarrow> full (state_of (Store s a r n e b)))"
  using assms by (auto simp: Store_def Let_def split: sum.splits)

lemma update_loop_cursor:
  "position (state_of (update_loop is ps i b)) = position b
   \<and> capacity (state_of (update_loop is ps i b)) = capacity b
   \<and> full (state_of (update_loop is ps i b)) = full b"
proof (induction "is" ps i b rule: update_loop.induct)
  case (1 indices priorities i b)
  show ?case
    by (subst (1 2 3) update_loop.simps) (use 1 in \<open>auto split: sum.splits\<close>)
qed

lemma step_cursor:
  assumes "position b < capacity b"
  shows "position (step c b) < capacity (step c b) \<and> capacity (step c b) = capacity b
       \<and> (full b \<longrightarrow> full (step c b))"
proof (cases c)
  case (CStore s a r n e)
  with Store_cursor [OF assms, of s a r n e] show ?thesis by simp
next
  case (CSample w beta rnd)
  with assms show ?thesis by simp
next
  case (CUpdate "is" ps)
  with assms update_loop_cursor [of "is" ps 0 b] show ?thesis
    by (simp add: update_priorities_def)
qed

lemma run_cursor:
  "position b < capacity b \<Longrightarrow>
   position (run cs b) < capacity (run cs b) \<and> capacity (run cs b) = capacity b
     \<and> (full b \<longrightarrow> full (run cs b))"
proof (induction cs arbitrary: b)
  case Nil
  then show ?case by simp
next
  case (Cons c cs)
  from step_cursor [OF Cons.prems, of c] Cons.IH [of "step c b"]
  show ?case by simp
qed

lemma run_append: "run (cs @ cs') b = run cs' (run cs b)"
  by (induction cs arbitrary: b) simp_all

text \<open>
  Claim C10. On an object built by the constructor with a positive capacity, after every
  sequence of \<^verbatim>\<open>Store\<close>, \<^verbatim>\<open>Sample\<close> and \<^verbatim>\<open>update_priorities\<close> calls (whether they
  complete or raise) the cursor \<open>position\<close> is below the capacity, the capacity is
  unchanged, and a full flag that is set stays set under every further sequence of calls.
\<close>

theorem cursor_in_range_full_monotone:
  assumes "new_PrioritizedReplay batchSize' capacity' alpha' dimension' = Some (Inr b0)"
    and "0 < capacity'"
  shows "position (run cs b0) < capacity' \<and> capacity (run cs b0) = capacity'
       \<and> (full (run cs b0) \<longrightarrow> full (run (cs @ cs') b0))"
proof -
  from assms have b0: "position b0 < capacity b0" "capacity b0 = capacity'"
    by (auto simp: new_PrioritizedReplay_def split: option.splits sum.splits)
  from run_cursor [OF b0(1), of cs] b0(2)
  have 1: "position (run cs b0) < capacity (run cs b0)" "capacity (run cs b0) = capacity'"
    by simp_all
  from run_cursor [OF 1(1), of cs'] have "full (run cs b0) \<longrightarrow> full (run (cs @ cs') b0)"
    by (simp add: run_append)
  with 1 show ?thesis by simp
qed

theorem cursor_in_range_full_monotone_witness:
  "new_PrioritizedReplay 2 4 1 1 = Some (Inr (example_replay 1)) \<and> (0::nat) < 4
   \<and> position (run [CStore [1] 0 1 [2] False, CStore [2] 1 0 [3] False,
          CStore [3] 0 1 [4] False, CStore [4] 1 1 [5] True] (example_replay 1)) < 4
   \<and> capacity (run [CStore [1] 0 1 [2] False, CStore [2] 1 0 [3] False,
          CStore [3] 0 1 [4] False, CStore [4] 1 1 [5] True] (example_replay 1)) = 4
   \<and> full (run [CStore [1] 0 1 [2] False, CStore [2] 1 0 [3] False,
          CStore [3] 0 1 [4] False, CStore [4] 1 1 [5] True] (example_replay 1))
   \<and> full (run ([CStore [1] 0 1 [2] False, CStore [2] 1 0 [3] False,
          CStore [3] 0 1 [4] False, CStore [4] 1 1 [5] True] @ [CUpdate [0] [3], CStore [5] 0 0 [6] False])
        (example_replay 1))"
proof -
  let ?cs = "[CStore [1] 0 1 [2] False, CStore [2] 1 0 [3] False,
          CStore [3] 0 1 [4] False, CStore [4] 1 1 [5] True]"
  have f: "full (run ?cs (example_replay 1))"
    by (simp add: example_replay_def Store_def st_update_def Let_def)
  from cursor_in_range_full_monotone [where cs = ?cs
      and cs' = "[CUpdate [0] [3], CStore [5] 0 0 [6] False]", OF new_example [of 1]] f
    new_example [of 1]
  show ?thesis by simp
qed

subsection \<open>The priority written by Store\<close>

text \<open>
  Claim C1 says that \<^verbatim>\<open>Store\<close> sets the leaf of the written slot to \<open>max_priority\<close> raised
  to the power \<open>alpha\<close>. The header writes the product \<^verbatim>\<open>max_priority * alpha\<close>: on the
  fresh object with \<open>alpha = 1 / 2\<close> the first \<^verbatim>\<open>Store\<close> leaves \<open>1 / 2\<close> in leaf 0, where
  the power is \<open>1 powr (1 / 2) = 1\<close>.
\<close>

theorem Store_writes_product_not_power:
  "new_PrioritizedReplay 2 4 (1 / 2) 1 = Some (Inr (example_replay (1 / 2)))
   \<and> st_get (idxSum (state_of (Store [0] 0 0 [0] False (example_replay (1 / 2))))) 0 = Inr (1 / 2)
   \<and> max_priority (example_replay (1 / 2)) powr alpha (example_replay (1 / 2)) = 1"
  using new_example [of "1 / 2"]
  by (simp add: example_replay_def Store_def st_update_def st_get_def recompute.simps Let_def)

subsection \<open>Storing beyond the capacity\<close>

lemma size_loop_result:
  assumes "size_loop s cap = Some y"
  shows "\<forall>sz. y = Inr sz \<longrightarrow> cap \<le> sz"
  by (rule size_loop.raw_induct [where P = "\<lambda>s cap y. \<forall>sz. y = Inr sz \<longrightarrow> cap \<le> sz", OF _ assms])
     (auto split: if_splits)

lemma size_loop_Inr: "size_loop s cap = Some (Inr sz) \<Longrightarrow> cap \<le> sz"
  using size_loop_result by blast

lemma new_store_inv:
  assumes "new_PrioritizedReplay bs cap al dm = Some (Inr b0)" and "0 < cap"
  shows "store_inv b0 \<and> capacity b0 = cap \<and> dimension b0 = dm \<and> position b0 = 0 \<and> \<not> full b0"
proof (cases "cap \<le> 2 ^ 30")
  case True
  from new_PrioritizedReplay_Some [OF True, of bs al dm] assms show ?thesis
    by (auto simp: store_inv_def new_SumTree_def)
next
  case False
  have *: "size_loop 1 cap = Some (Inr sz) \<Longrightarrow> cap \<le> sz" for sz
    by (rule size_loop_Inr)
  from assms * show ?thesis
    by (auto simp: new_PrioritizedReplay_def store_inv_def new_SumTree_def split: option.splits sum.splits)
qed

lemma Store_Done:
  assumes "store_inv b" and "length s = dimension b" and "length n = dimension b"
  shows "\<exists>b'. Store s a r n e b = Done b' \<and> store_inv b' \<and> capacity b' = capacity b
           \<and> dimension b' = dimension b
           \<and> position b' = Suc (position b) mod capacity b
           \<and> full b' = (full b \<or> Suc (position b) = capacity b)
           \<and> (\<forall>j < capacity b. slot b' j = (if j = position b then (s, a, r, n, e) else slot b j))"
  using assms
  by (auto simp: Store_def store_inv_def st_update_def Let_def slot_def mod_Suc recompute_length)

lemma StoreAll_append:
  "StoreAll (ts @ ts') b =
     (case StoreAll ts b of Done b' \<Rightarrow> StoreAll ts' b' | Raised e b' \<Rightarrow> Raised e b')"
  by (induction ts b rule: StoreAll.induct) (auto split: outcome.splits)


lemma StoreAll_fresh:
  assumes "store_inv b0" and "position b0 = 0" and "\<not> full b0"
    and "\<forall>(s, a, r, n, e) \<in> set ts. length s = dimension b0 \<and> length n = dimension b0"
  shows "\<exists>b. StoreAll ts b0 = Done b \<and> store_inv b \<and> capacity b = capacity b0
           \<and> dimension b = dimension b0
           \<and> position b = length ts mod capacity b0
           \<and> full b = (capacity b0 \<le> length ts)
           \<and> (\<forall>i < length ts. length ts \<le> i + capacity b0 \<longrightarrow> slot b (i mod capacity b0) = ts ! i)"
  using assms(4)
proof (induction ts rule: rev_induct)
  case Nil
  with assms(1-3) show ?case by (auto simp: store_inv_def)
next
  case (snoc x ts)
  let ?c = "capacity b0" and ?m = "length ts"
  from snoc.prems have "\<forall>(s, a, r, n, e) \<in> set ts. length s = dimension b0 \<and> length n = dimension b0"
    by simp
  from snoc.IH [OF this] obtain b where b: "StoreAll ts b0 = Done b" "store_inv b" "capacity b = ?c"
      "dimension b = dimension b0" "position b = ?m mod ?c" "full b = (?c \<le> ?m)"
      "\<forall>i < ?m. ?m \<le> i + ?c \<longrightarrow> slot b (i mod ?c) = ts ! i"
    by blast
  obtain s a r n e where x: "x = (s, a, r, n, e)" by (cases x)
  with snoc.prems b(4) have len: "length s = dimension b" "length n = dimension b" by auto
  from Store_Done [OF b(2) len, of a r e] obtain b' where b':
      "Store s a r n e b = Done b'" "store_inv b'" "capacity b' = capacity b"
      "dimension b' = dimension b" "position b' = Suc (position b) mod capacity b"
      "full b' = (full b \<or> Suc (position b) = capacity b)"
      "\<forall>j < capacity b. slot b' j = (if j = position b then (s, a, r, n, e) else slot b j)"
    by blast
  from b(2,3) have c: "0 < ?c" by (simp add: store_inv_def)
  have run: "StoreAll (ts @ [x]) b0 = Done b'"
    using b(1) b'(1) x by (simp add: StoreAll_append)
  have pos: "position b' = length (ts @ [x]) mod ?c"
    using b'(5) b(3,5) by (simp add: mod_Suc_eq)
  have fl: "full b' = (?c \<le> length (ts @ [x]))"
  proof (cases "?c \<le> ?m")
    case True
    with b'(6) b(6) show ?thesis by simp
  next
    case False
    then have "?m mod ?c = ?m" by simp
    with False b'(6) b(3,5,6) show ?thesis by auto
  qed
  have slots: "slot b' (i mod ?c) = (ts @ [x]) ! i"
    if i: "i < length (ts @ [x])" "length (ts @ [x]) \<le> i + ?c" for i
  proof (cases "i = ?m")
    case True
    with b'(7) b(3,5) c x show ?thesis by simp
  next
    case False
    with i have lt: "i < ?m" and le: "?m < i + ?c" by simp_all
    have ne: "i mod ?c \<noteq> ?m mod ?c"
    proof
      assume eq: "i mod ?c = ?m mod ?c"
      from lt have "i \<le> ?m" by simp
      from mod_eq_dvd_iff_nat [OF this, of ?c] eq have "?c dvd ?m - i" by simp
      moreover from lt le have "0 < ?m - i" "?m - i < ?c" by simp_all
      ultimately show False by (simp add: nat_dvd_not_less)
    qed
    from b'(7) b(3,5) c ne have "slot b' (i mod ?c) = slot b (i mod ?c)" by simp
    also from b(7) lt le have "\<dots> = ts ! i" by simp
    finally show ?thesis using lt by (simp add: nth_append)
  qed
  have "capacity b' = ?c" "dimension b' = dimension b0"
    using b'(3,4) b(3,4) by simp_all
  with run b'(2) pos fl slots show ?case
    by (intro exI [of _ b'] conjI allI impI) assumption+
qed

text \<open>
  Claim C5. Into an object fresh from the constructor (positive capacity \<open>cap\<close>), store
  \<open>cap + k\<close> transitions whose encoded states have the configured dimension. Every
  \<^verbatim>\<open>Store\<close> completes; after the first \<open>m\<close> of them the cursor is \<open>m mod cap\<close> (each call
  advances it to \<open>(cursor + 1) mod cap\<close>) and the full flag is set exactly when
  \<open>cap \<le> m\<close>, so it is raised once, by the call that wraps the cursor to 0. At the end
  the buffer is full and holds the last \<open>cap\<close> transitions: transition \<open>k + i\<close> of the
  list is in slot \<open>(k + i) mod cap\<close>, for every \<open>i < cap\<close>; the first \<open>k\<close> are overwritten.
  (The terminal flag is stored as 0 or 1 and read back as a truth value.)
\<close>

theorem capacity_wrap:
  assumes "new_PrioritizedReplay bs cap al dm = Some (Inr b0)" and "0 < cap"
    and "length ts = cap + k"
    and "list_all (\<lambda>(s, a, r, n, e). length s = dm \<and> length n = dm) ts"
  shows "\<exists>b. StoreAll ts b0 = Done b \<and> full b \<and> position b = (cap + k) mod cap
           \<and> capacity b = cap
           \<and> (\<forall>i < cap. slot b ((k + i) mod cap) = ts ! (k + i))
           \<and> (\<forall>m \<le> cap + k.
                 position (state_of (StoreAll (take m ts) b0)) = m mod cap \<and>
                 full (state_of (StoreAll (take m ts) b0)) = (cap \<le> m))"
proof -
  from new_store_inv [OF assms(1,2)] have b0: "store_inv b0" "capacity b0 = cap"
      "dimension b0 = dm" "position b0 = 0" "\<not> full b0"
    by simp_all
  have dims: "\<forall>(s, a, r, n, e) \<in> set ts. length s = dimension b0 \<and> length n = dimension b0"
    using assms(4) b0(3) by (simp add: list_all_iff)
  from StoreAll_fresh [OF b0(1,4,5) dims] b0(2) assms(3) obtain b where b:
      "StoreAll ts b0 = Done b" "capacity b = cap" "position b = (cap + k) mod cap"
      "full b = (cap \<le> cap + k)"
      "\<forall>i < cap + k. cap + k \<le> i + cap \<longrightarrow> slot b (i mod cap) = ts ! i"
    by auto
  have slots: "slot b ((k + i) mod cap) = ts ! (k + i)" if "i < cap" for i
    using b(5) that by simp
  have pre: "position (state_of (StoreAll (take m ts) b0)) = m mod cap \<and>
             full (state_of (StoreAll (take m ts) b0)) = (cap \<le> m)" if "m \<le> cap + k" for m
  proof -
    have "\<forall>(s, a, r, n, e) \<in> set (take m ts). length s = dimension b0 \<and> length n = dimension b0"
      using dims by (meson in_set_takeD)
    from StoreAll_fresh [OF b0(1,4,5) this] b0(2) that assms(3) show ?thesis
      by auto
  qed
  from b(1,2,3,4) slots pre show ?thesis
    by (intro exI [of _ b] conjI allI impI) simp_all
qed

theorem capacity_wrap_witness:
  "new_PrioritizedReplay 2 4 1 1 = Some (Inr (example_replay 1)) \<and> (0::nat) < 4
   \<and> length [([1], 0, 1, [2], False), ([2], 1, 0, [3], False), ([3], 0, 1, [4], False),
        ([4], 1, 1, [5], True), ([6::real], 1::int, 2::real, [7::real], False)] = 4 + 1
   \<and> list_all (\<lambda>(s, a, r, n, e). length s = 1 \<and> length n = 1)
        [([1], 0, 1, [2], False), ([2], 1, 0, [3], False), ([3], 0, 1, [4], False),
         ([4], 1, 1, [5], True), ([6::real], 1::int, 2::real, [7::real], False)]
   \<and> (\<exists>b. StoreAll [([1], 0, 1, [2], False), ([2], 1, 0, [3], False), ([3], 0, 1, [4], False),
                ([4], 1, 1, [5], True), ([6], 1, 2, [7], False)] (example_replay 1) = Done b
          \<and> full b \<and> position b = 1 \<and> capacity b = 4
          \<and> slot b 0 = ([6], 1, 2, [7], False) \<and> slot b 1 = ([2], 1, 0, [3], False)
          \<and> slot b 2 = ([3], 0, 1, [4], False) \<and> slot b 3 = ([4], 1, 1, [5], True))"
proof -
  let ?ts = "[([1], 0, 1, [2], False), ([2], 1, 0, [3], False), ([3], 0, 1, [4], False),
         ([4], 1, 1, [5], True), ([6::real], 1::int, 2::real, [7::real], False)]"
  have len: "length ?ts = 4 + 1" by simp
  have dims: "list_all (\<lambda>(s, a, r, n, e). length s = 1 \<and> length n = 1) ?ts" by simp
  from capacity_wrap [OF new_example [of 1] _ len dims] obtain b where b:
      "StoreAll ?ts (example_replay 1) = Done b" "full b" "position b = (4 + 1) mod 4"
      "capacity b = 4" "\<forall>i < 4. slot b ((1 + i) mod 4) = ?ts ! (1 + i)"
    by auto
  have e: "(1 + 0) mod 4 = (1::nat)" "(1 + 1) mod 4 = (2::nat)" "(1 + 2) mod 4 = (3::nat)"
      "(1 + 3) mod 4 = (0::nat)" "1 + 0 = (1::nat)" "1 + 1 = (2::nat)" "1 + 2 = (3::nat)"
      "1 + 3 = (4::nat)"
    by simp_all
  have lt: "(0::nat) < 4" "(1::nat) < 4" "(2::nat) < 4" "(3::nat) < 4" by simp_all
  note i = spec [OF b(5), of 0, THEN mp, OF lt(1)] spec [OF b(5), of 1, THEN mp, OF lt(2)]
    spec [OF b(5), of 2, THEN mp, OF lt(3)] spec [OF b(5), of 3, THEN mp, OF lt(4)]
  have s: "slot b 1 = ([2], 1, 0, [3], False)" "slot b 2 = ([3], 0, 1, [4], False)"
      "slot b 3 = ([4], 1, 1, [5], True)" "slot b 0 = ([6], 1, 2, [7], False)"
    using i unfolding e by simp_all
  from b(3) have p: "position b = 1" by simp
  show ?thesis
  proof (intro conjI exI [of _ b])
    show "new_PrioritizedReplay 2 4 1 1 = Some (Inr (example_replay 1))"
      by (rule new_example)
    show "(0::nat) < 4" by simp
  qed (fact len dims b(1) b(2) p b(4) s)+
qed

subsection \<open>Sampling from an empty buffer\<close>

text \<open>
  Claim C4, as the code has it. Neither \<^verbatim>\<open>sampleProportional\<close> nor \<^verbatim>\<open>Sample\<close> tests for
  an empty buffer. With cursor 0 and the full flag down, the upper index of the range sum
  is \<open>0 - 1\<close> in \<^verbatim>\<open>size_t\<close>, that is \<open>2 ^ 64 - 1\<close>, which lies outside the tree: the range
  sum fails with the tree's contract violation, both calls fail with it, and no batch is
  returned.
\<close>

theorem empty_buffer_sampling_fails:
  assumes "position b = 0" and "\<not> full b" and "st_size (idxSum b) < 2 ^ 64"
  shows "sampleProportional rnd b = Inl ContractViolation
       \<and> Sample weights0 beta rnd b = Inl ContractViolation"
proof -
  have "st_sum (idxSum b) 0 (2 ^ 64 - 1) = Inl ContractViolation"
    using assms(3) by (simp add: st_sum_def)
  then have "sampleProportional rnd b = Inl ContractViolation"
    using assms(1,2) by (simp add: sampleProportional_def)
  then show ?thesis by (simp add: Sample_def)
qed

theorem empty_buffer_sampling_fails_witness:
  "position (example_replay 1) = 0 \<and> \<not> full (example_replay 1)
   \<and> st_size (idxSum (example_replay 1)) < 2 ^ 64
   \<and> sampleProportional (const_draws (1 / 10)) (example_replay 1) = Inl ContractViolation
   \<and> Sample [0, 0] 1 (const_draws (1 / 10)) (example_replay 1) = Inl ContractViolation"
  using empty_buffer_sampling_fails [of "example_replay 1" "const_draws (1 / 10)" "[0, 0]" 1]
  by (simp add: example_replay_def)

text \<open>
  Claim C4 as stated fails: on the fresh object the failure of both calls is not
  \<open>EmptyBufferError\<close>.
\<close>

theorem empty_buffer_no_EmptyBufferError:
  "sampleProportional (const_draws (1 / 10)) (example_replay 1) \<noteq> Inl EmptyBufferError
   \<and> Sample [0, 0] 1 (const_draws (1 / 10)) (example_replay 1) \<noteq> Inl EmptyBufferError"
proof -
  have "st_sum (idxSum (example_replay 1)) 0 (2 ^ 64 - 1) = Inl ContractViolation"
    by (simp add: st_sum_def example_replay_def)
  then have "sampleProportional (const_draws (1 / 10)) (example_replay 1) = Inl ContractViolation"
    by (simp add: sampleProportional_def example_replay_def)
  then show ?thesis by (simp add: Sample_def)
qed

subsection \<open>Updating priorities\<close>








text \<open>
  Claim C2 says that \<^verbatim>\<open>update_priorities\<close> raises \<open>max_priority\<close> to the maximum with the
  new priority and sets the leaf of the index to the new priority raised to the power
  \<open>alpha\<close>. The header does the first and writes the product \<^verbatim>\<open>alpha * priorities[i]\<close>
  to the leaf: with \<open>alpha = 2\<close>, the priority 3 for slot 0 leaves \<open>2 * 3 = 6\<close> in leaf 0,
  where the power is \<open>3 powr 2 = 9\<close>; \<open>max_priority\<close> becomes 3.
\<close>

theorem update_priorities_writes_product_not_power:
  "st_get (idxSum (state_of (update_priorities [0] [3]
      (state_of (Store [0] 0 0 [0] False (example_replay 2)))))) 0 = Inr 6
   \<and> real 3 powr alpha (state_of (Store [0] 0 0 [0] False (example_replay 2))) = 9
   \<and> max_priority (state_of (update_priorities [0] [3]
      (state_of (Store [0] 0 0 [0] False (example_replay 2))))) = 3"
  by (simp add: example_replay_def Store_def st_update_def st_get_def Let_def
      update_priorities_def update_loop.simps recompute.simps uword_to_double_def
      excess_bits.simps)

subsection \<open>The prefix-sum descent\<close>

text \<open>
  The descent of the specification's tree, in the exact arithmetic of the specification's
  sum invariant: a mass below the sum of the first \<open>n\<close> leaves resolves to one of these
  leaves, and to one that is not zero.
\<close>

lemma subtree_sum:
  assumes inv: "\<forall>i. 0 < i \<and> i < (2::nat) ^ h \<longrightarrow> (tr :: real list) ! i = tr ! (2 * i) + tr ! (2 * i + 1)"
    and "d + e = h" and "2 ^ e \<le> n" and "n < 2 ^ Suc e"
  shows "tr ! n = (\<Sum>j = n * 2 ^ d ..< (n + 1) * 2 ^ d. tr ! j)"
  using assms(2-)
proof (induction d arbitrary: n e)
  case 0
  then show ?case by simp
next
  case (Suc d)
  from Suc.prems have e: "Suc e \<le> h" by simp
  have "(0::nat) < 2 ^ e" by simp
  with Suc.prems(2) have n0: "0 < n" by linarith
  from e have "(2::nat) ^ Suc e \<le> 2 ^ h" by (intro power_increasing) simp_all
  with Suc.prems(3) have nh: "n < 2 ^ h" by linarith
  from inv n0 nh have split: "tr ! n = tr ! (2 * n) + tr ! (2 * n + 1)" by blast
  have lv: "d + Suc e = h" using Suc.prems(1) by simp
  have l1: "2 ^ Suc e \<le> 2 * n" "2 * n < 2 ^ Suc (Suc e)"
    using Suc.prems(2,3) by simp_all
  have l2: "2 ^ Suc e \<le> 2 * n + 1" "2 * n + 1 < 2 ^ Suc (Suc e)"
    using Suc.prems(2,3) by simp_all
  have a: "tr ! (2 * n) = (\<Sum>j = 2 * n * 2 ^ d ..< (2 * n + 1) * 2 ^ d. tr ! j)"
    by (rule Suc.IH [OF lv l1])
  have b: "tr ! (2 * n + 1) = (\<Sum>j = (2 * n + 1) * 2 ^ d ..< (2 * n + 1 + 1) * 2 ^ d. tr ! j)"
    by (rule Suc.IH [OF lv l2])
  have le1: "2 * n * 2 ^ d \<le> (2 * n + 1) * 2 ^ d" by simp
  have le2: "(2 * n + 1) * 2 ^ d \<le> (2 * n + 1 + 1) * 2 ^ d" by simp
  have "tr ! n = (\<Sum>j = 2 * n * 2 ^ d ..< (2 * n + 1 + 1) * 2 ^ d. tr ! j)"
    unfolding split a b by (rule sum.atLeastLessThan_concat [OF le1 le2])
  moreover have "2 * n * 2 ^ d = n * 2 ^ Suc d" "(2 * n + 1 + 1) * 2 ^ d = (n + 1) * 2 ^ Suc d"
    by simp_all
  ultimately show ?case by simp
qed

lemma descend_prefix:
  assumes inv: "\<forall>i. 0 < i \<and> i < (2::nat) ^ h \<longrightarrow> (tr :: real list) ! i = tr ! (2 * i) + tr ! (2 * i + 1)"
    and "d + e = h" and "2 ^ e \<le> n" and "n < 2 ^ Suc e" and "0 \<le> m"
  shows "n * 2 ^ d \<le> descend (2 ^ h) tr n m \<and> descend (2 ^ h) tr n m < (n + 1) * 2 ^ d
       \<and> (\<Sum>j = n * 2 ^ d ..< descend (2 ^ h) tr n m. tr ! j) \<le> m
       \<and> (m < tr ! n \<longrightarrow>
            m - (\<Sum>j = n * 2 ^ d ..< descend (2 ^ h) tr n m. tr ! j) < tr ! (descend (2 ^ h) tr n m))"
  using assms(2-)
proof (induction d arbitrary: n e m)
  case 0
  then have "\<not> n < 2 ^ h" by simp
  then have "descend (2 ^ h) tr n m = n" by (subst descend.simps) simp
  with 0 show ?case by simp
next
  case (Suc d)
  from Suc.prems have e: "Suc e \<le> h" by simp
  have "(0::nat) < 2 ^ e" by simp
  with Suc.prems(2) have n0: "0 < n" by linarith
  from e have "(2::nat) ^ Suc e \<le> 2 ^ h" by (intro power_increasing) simp_all
  with Suc.prems(3) have nh: "n < 2 ^ h" by linarith
  from inv n0 nh have split: "tr ! n = tr ! (2 * n) + tr ! (2 * n + 1)" by blast
  have lv: "d + Suc e = h" using Suc.prems(1) by simp
  have l1: "2 ^ Suc e \<le> 2 * n" "2 * n < 2 ^ Suc (Suc e)"
    using Suc.prems(2,3) by simp_all
  have l2: "2 ^ Suc e \<le> 2 * n + 1" "2 * n + 1 < 2 ^ Suc (Suc e)"
    using Suc.prems(2,3) by simp_all
  have s1: "2 * n * 2 ^ d = n * 2 ^ Suc d" by simp
  have s2: "(2 * n + 1 + 1) * 2 ^ d = (n + 1) * 2 ^ Suc d" by simp
  show ?case
  proof (cases "m < tr ! (2 * n)")
    case True
    let ?L = "descend (2 ^ h) tr (2 * n) m"
    have unf: "descend (2 ^ h) tr n m = ?L"
      using n0 nh True by (subst descend.simps) simp
    from Suc.IH [OF lv l1 Suc.prems(4)] True
    have ih: "2 * n * 2 ^ d \<le> ?L" "?L < (2 * n + 1) * 2 ^ d"
        "(\<Sum>j = 2 * n * 2 ^ d ..< ?L. tr ! j) \<le> m"
        "m - (\<Sum>j = 2 * n * 2 ^ d ..< ?L. tr ! j) < tr ! ?L"
      by simp_all
    have "(2 * n + 1) * 2 ^ d \<le> (n + 1) * 2 ^ Suc d" by simp
    with ih(2) have "?L < (n + 1) * 2 ^ Suc d" by linarith
    with ih(1,3,4) show ?thesis unfolding unf s1 [symmetric] by simp
  next
    case False
    let ?m = "m - tr ! (2 * n)"
    let ?L = "descend (2 ^ h) tr (2 * n + 1) ?m"
    have unf: "descend (2 ^ h) tr n m = ?L"
      using n0 nh False by (subst descend.simps) simp
    from False have m0: "0 \<le> ?m" by simp
    from Suc.IH [OF lv l2 m0]
    have ih: "(2 * n + 1) * 2 ^ d \<le> ?L" "?L < (2 * n + 1 + 1) * 2 ^ d"
        "(\<Sum>j = (2 * n + 1) * 2 ^ d ..< ?L. tr ! j) \<le> ?m"
        "?m < tr ! (2 * n + 1) \<longrightarrow> ?m - (\<Sum>j = (2 * n + 1) * 2 ^ d ..< ?L. tr ! j) < tr ! ?L"
      by simp_all
    have left: "tr ! (2 * n) = (\<Sum>j = 2 * n * 2 ^ d ..< (2 * n + 1) * 2 ^ d. tr ! j)"
      by (rule subtree_sum [OF inv lv l1])
    have le1: "2 * n * 2 ^ d \<le> (2 * n + 1) * 2 ^ d" by simp
    have cat: "(\<Sum>j = 2 * n * 2 ^ d ..< ?L. tr ! j)
        = tr ! (2 * n) + (\<Sum>j = (2 * n + 1) * 2 ^ d ..< ?L. tr ! j)"
      using sum.atLeastLessThan_concat [OF le1 ih(1), of "\<lambda>j. tr ! j"] left by linarith
    have lo: "n * 2 ^ Suc d \<le> ?L" using ih(1) le1 unfolding s1 by linarith
    have hi: "?L < (n + 1) * 2 ^ Suc d" using ih(2) unfolding s2 .
    have sm: "(\<Sum>j = n * 2 ^ Suc d ..< ?L. tr ! j) \<le> m"
      using ih(3) cat unfolding s1 by linarith
    have up: "m - (\<Sum>j = n * 2 ^ Suc d ..< ?L. tr ! j) < tr ! ?L" if "m < tr ! n"
    proof -
      from that split have "?m < tr ! (2 * n + 1)" by linarith
      with ih(4) have "?m - (\<Sum>j = (2 * n + 1) * 2 ^ d ..< ?L. tr ! j) < tr ! ?L" by blast
      with cat show ?thesis unfolding s1 by linarith
    qed
    from lo hi sm up show ?thesis unfolding unf by blast
  qed
qed

lemma leaf_sum_conv: "leaf_sum t n = (\<Sum>j = st_size t ..< st_size t + n. tree t ! j)"
proof -
  have "leaf_sum t n = (\<Sum>j = 0 ..< n. tree t ! (j + st_size t))"
    by (simp add: leaf_sum_def interv_sum_list_conv_sum_set_nat add.commute)
  also have "\<dots> = (\<Sum>j = 0 + st_size t ..< n + st_size t. tree t ! j)"
    by (rule sum.shift_bounds_nat_ivl [symmetric])
  finally show ?thesis by (simp add: add.commute)
qed

lemma findPrefixSum_in_range:
  assumes "tree_inv t" and "n \<le> st_size t" and "0 \<le> m" and "m < leaf_sum t n"
  shows "findPrefixSum t m < n \<and> 0 < tree t ! (st_size t + findPrefixSum t m)
       \<and> 0 < st_total t"
proof -
  let ?tr = "tree t" and ?sz = "st_size t"
  from assms(1) obtain h where h: "?sz = 2 ^ h" by (auto simp: tree_inv_def)
  from assms(1) h have inv: "\<forall>i. 0 < i \<and> i < (2::nat) ^ h \<longrightarrow> ?tr ! i = ?tr ! (2 * i) + ?tr ! (2 * i + 1)"
    by (simp add: tree_inv_def)
  from assms(1) have nonneg: "0 \<le> ?tr ! j" if "?sz \<le> j" "j < 2 * ?sz" for j
  proof -
    from that have "j - ?sz < ?sz" "?sz + (j - ?sz) = j" by simp_all
    with assms(1) show ?thesis unfolding tree_inv_def by metis
  qed
  let ?L = "descend (2 ^ h) ?tr 1 m"
  have lv: "h + 0 = h" "(2::nat) ^ 0 \<le> 1" "(1::nat) < 2 ^ Suc 0" by simp_all
  from descend_prefix [OF inv lv assms(3)]
  have L: "?sz \<le> ?L" "?L < 2 * ?sz" "(\<Sum>j = ?sz ..< ?L. ?tr ! j) \<le> m"
      "m < ?tr ! 1 \<longrightarrow> m - (\<Sum>j = ?sz ..< ?L. ?tr ! j) < ?tr ! ?L"
    by (simp_all add: h)
  have "(1 + 1) * 2 ^ h = 2 * (2::nat) ^ h" by simp
  with subtree_sum [OF inv lv] have root: "?tr ! 1 = (\<Sum>j = ?sz ..< 2 * ?sz. ?tr ! j)"
    unfolding h by (simp add: mult_2)
  have mono: "(\<Sum>j = ?sz ..< a. ?tr ! j) \<le> (\<Sum>j = ?sz ..< b. ?tr ! j)"
    if "a \<le> b" "b \<le> 2 * ?sz" for a b
  proof (rule sum_mono2)
    show "finite {?sz ..< b}" by simp
    show "{?sz ..< a} \<subseteq> {?sz ..< b}" using that(1) by auto
    show "0 \<le> ?tr ! j" if "j \<in> {?sz ..< b} - {?sz ..< a}" for j
      using that \<open>b \<le> 2 * ?sz\<close> by (intro nonneg) auto
  qed
  have "leaf_sum t n \<le> ?tr ! 1"
    unfolding leaf_sum_conv root using assms(2) by (intro mono) simp_all
  with assms(4) have lt: "m < ?tr ! 1" by linarith
  with assms(3) have tot: "0 < st_total t" by (simp add: st_total_def)
  from lt have fp: "findPrefixSum t m = ?L - ?sz"
    by (simp add: findPrefixSum_def st_total_def h)
  have "?L < ?sz + n"
  proof (rule ccontr)
    assume "\<not> ?L < ?sz + n"
    then have "?sz + n \<le> ?L" by simp
    from mono [OF this] L(2) have "leaf_sum t n \<le> (\<Sum>j = ?sz ..< ?L. ?tr ! j)"
      unfolding leaf_sum_conv by simp
    with L(3) assms(4) show False by linarith
  qed
  with L(1) have 1: "?L - ?sz < n" by simp
  from L(4) lt L(3) assms(3) have "0 < ?tr ! ?L" by linarith
  with L(1) have 2: "0 < ?tr ! (?sz + (?L - ?sz))" by simp
  from 1 2 tot show ?thesis unfolding fp by simp
qed

lemma sample_loop_eq:
  assumes "bt \<le> n" and "length idxes = n"
  shows "sample_loop rnd t seg n bt idxes
       = take bt idxes @ map (\<lambda>k. findPrefixSum t (rnd k * seg + real k * seg)) [bt..<n]"
  using assms
proof (induction rnd t seg n bt idxes rule: sample_loop.induct)
  case (1 rnd t seg n bt idxes)
  show ?case
  proof (cases "bt < n")
    case False
    with "1.prems" show ?thesis by (subst sample_loop.simps) simp
  next
    case True
    let ?idx = "findPrefixSum t (rnd bt * seg + real bt * seg)"
    have unf: "sample_loop rnd t seg n bt idxes = sample_loop rnd t seg n (bt + 1) (idxes[bt := ?idx])"
      using True by (subst sample_loop.simps) (simp add: Let_def)
    from True "1.prems" have "bt + 1 \<le> n" "length (idxes[bt := ?idx]) = n" by simp_all
    from "1.IH" [OF True refl refl this]
    have ih: "sample_loop rnd t seg n (bt + 1) (idxes[bt := ?idx])
        = take (bt + 1) (idxes[bt := ?idx])
          @ map (\<lambda>k. findPrefixSum t (rnd k * seg + real k * seg)) [bt + 1..<n]" .
    have tk: "take (bt + 1) (idxes[bt := ?idx]) = take bt idxes @ [?idx]"
      using True "1.prems"(2) by (simp add: take_Suc_conv_app_nth)
    have up: "[bt..<n] = bt # [bt + 1..<n]"
      using True by (simp add: upt_conv_Cons)
    show ?thesis unfolding unf ih tk up by simp
  qed
qed

subsection \<open>The concrete scenario\<close>

lemma scenario_replay_eq:
  "scenario_replay =
     \<lparr> alpha = 1, max_priority = 3,
       idxSum = \<lparr> st_size = 4, st_capacity = 4, tree = [0, 6, 4, 2, 3, 1, 1, 1] \<rparr>,
       batchSize = 2, capacity = 4, position = 0, dimension = 1,
       states = [[1], [2], [3], [4]], actions = [0, 1, 0, 1], rewards = [1, 0, 1, 1],
       nextStates = [[2], [3], [4], [5]], isTerminal = [0, 0, 0, 1], full = True \<rparr>"
  by (simp add: scenario_replay_def example_replay_def Store_def st_update_def Let_def
      update_priorities_def update_loop.simps recompute.simps uword_to_double_def
      excess_bits.simps)

lemma zero_mass_replay_eq:
  "zero_mass_replay =
     \<lparr> alpha = 1, max_priority = 1,
       idxSum = \<lparr> st_size = 4, st_capacity = 4, tree = [0, 0, 0, 0, 0, 0, 0, 0] \<rparr>,
       batchSize = 2, capacity = 4, position = 1, dimension = 1,
       states = [[1], [0], [0], [0]], actions = [0, 0, 0, 0], rewards = [1, 0, 0, 0],
       nextStates = [[2], [0], [0], [0]], isTerminal = [0, 0, 0, 0], full = False \<rparr>"
  by (simp add: zero_mass_replay_def example_replay_def Store_def st_update_def Let_def
      update_priorities_def update_loop.simps recompute.simps uword_to_double_def
      excess_bits.simps)

lemma scenario_tree_inv: "tree_inv (idxSum scenario_replay)"
proof -
  have "(4::nat) = 2 ^ 2" by simp
  then have p: "\<exists>h. (4::nat) = 2 ^ h" by (rule exI)
  have i: "[0, 6, 4, 2, 3, 1, 1, 1 :: real] ! i = [0, 6, 4, 2, 3, 1, 1, 1] ! (2 * i) + [0, 6, 4, 2, 3, 1, 1, 1] ! (2 * i + 1)"
    if "0 < i \<and> i < 4" for i :: nat
  proof -
    from that have "i = 1 \<or> i = 2 \<or> i = 3" by auto
    then show ?thesis by auto
  qed
  have l: "0 \<le> [0, 6, 4, 2, 3, 1, 1, 1 :: real] ! (4 + j)" if "j < 4" for j :: nat
  proof -
    from that have "j = 0 \<or> j = 1 \<or> j = 2 \<or> j = 3" by auto
    then show ?thesis by auto
  qed
  from p i l show ?thesis
    by (simp add: tree_inv_def scenario_replay_eq)
qed

lemma scenario_leaf_sum: "leaf_sum (idxSum scenario_replay) 4 = 6"
  by (simp add: leaf_sum_def scenario_replay_eq eval_nat_numeral)

lemma scenario_find:
  "findPrefixSum (idxSum scenario_replay) (3 / 10) = 0"
  "findPrefixSum (idxSum scenario_replay) (33 / 10) = 1"
  by (simp_all add: findPrefixSum_def st_total_def scenario_replay_eq descend.simps)

subsection \<open>Stratified sampling\<close>

lemma sampleProportional_eq:
  assumes "0 < upperBound b" and "upperBound b \<le> st_size (idxSum b)" and "upperBound b < 2 ^ 64"
  shows "sampleProportional rnd b =
     Inr (map (\<lambda>bt. findPrefixSum (idxSum b)
                 (rnd bt * (leaf_sum (idxSum b) (upperBound b) / real (batchSize b))
                  + real bt * (leaf_sum (idxSum b) (upperBound b) / real (batchSize b))))
            [0..<batchSize b])"
proof -
  let ?ub = "upperBound b"
  from assms(1,3) have "(?ub + 2 ^ 64 - 1) mod 2 ^ 64 = ?ub - 1"
    by (simp add: mod_if)
  then have hi: "((if full b then capacity b else position b) + 2 ^ 64 - 1) mod 2 ^ 64 = ?ub - 1"
    by (simp add: upperBound_def)
  from assms(1,2) have "st_sum (idxSum b) 0 (?ub - 1) = Inr (leaf_sum (idxSum b) ?ub)"
    by (simp add: st_sum_def leaf_sum_def)
  then show ?thesis
    unfolding sampleProportional_def hi Let_def
    by (simp add: sample_loop_eq)
qed

text \<open>
  Claim C7. On a buffer with at least one populated slot (\<open>upperBound\<close> positive, within
  the tree and within \<^verbatim>\<open>size_t\<close>), \<^verbatim>\<open>sampleProportional\<close> returns exactly \<open>batchSize\<close>
  indices. The total is the sum of the leaves \<open>0 .. upperBound - 1\<close>, the populated range
  only; the width of a stratum is that total divided by \<open>batchSize\<close>; and the index of
  stratum \<open>bt\<close> is the result of \<open>findPrefixSum\<close> at the mass
  \<open>rnd bt * width + bt * width\<close>, one index per stratum.
\<close>

theorem sampleProportional_stratified:
  assumes "0 < upperBound b" and "upperBound b \<le> st_size (idxSum b)" and "upperBound b < 2 ^ 64"
  shows "\<exists>idxes. sampleProportional rnd b = Inr idxes \<and> length idxes = batchSize b
           \<and> idxes = map (\<lambda>bt. findPrefixSum (idxSum b)
                 (rnd bt * (leaf_sum (idxSum b) (upperBound b) / real (batchSize b))
                  + real bt * (leaf_sum (idxSum b) (upperBound b) / real (batchSize b))))
               [0..<batchSize b]"
  using sampleProportional_eq [OF assms, of rnd] by simp

theorem sampleProportional_stratified_witness:
  "0 < upperBound scenario_replay \<and> upperBound scenario_replay \<le> st_size (idxSum scenario_replay)
   \<and> upperBound scenario_replay < 2 ^ 64
   \<and> leaf_sum (idxSum scenario_replay) (upperBound scenario_replay) = 6
   \<and> sampleProportional (const_draws (1 / 10)) scenario_replay = Inr [0, 1]"
proof -
  have ub: "upperBound scenario_replay = 4" "st_size (idxSum scenario_replay) = 4"
      "batchSize scenario_replay = 2"
    by (simp_all add: upperBound_def scenario_replay_eq)
  have h: "0 < upperBound scenario_replay"
      "upperBound scenario_replay \<le> st_size (idxSum scenario_replay)"
      "upperBound scenario_replay < 2 ^ 64"
    by (simp_all add: ub)
  have u: "[0..<2] = [0, 1]" by (simp add: upt_rec)
  from sampleProportional_stratified [OF h, of "const_draws (1 / 10)"]
  have "sampleProportional (const_draws (1 / 10)) scenario_replay = Inr [0, 1]"
    by (simp add: ub scenario_leaf_sum u const_draws_def scenario_find)
  with h scenario_leaf_sum ub(1) show ?thesis by simp
qed

subsection \<open>Sampled indices\<close>

text \<open>
  Claim C6 says that on a buffer that holds at least one transition every sampled index
  is below \<open>upperBound\<close>. \<^verbatim>\<open>sampleProportional\<close> bounds the total mass by the populated
  range, but does not keep the mass below that total. On a buffer that holds one
  transition whose priority has been set to 0, the total is 0 and so is every mass; the
  mass reaches the total, and both indices returned are 3, the rightmost leaf, while
  only slot 0 is populated.
\<close>

theorem zero_mass_sample_outside_populated_range:
  "position zero_mass_replay = 1 \<and> \<not> full zero_mass_replay \<and> upperBound zero_mass_replay = 1
   \<and> sampleProportional (const_draws (1 / 10)) zero_mass_replay = Inr [3, 3]"
proof -
  have "replicate 2 (0::nat) = [0, 0]" by (simp add: numeral_2_eq_2)
  then show ?thesis
    by (simp add: zero_mass_replay_eq upperBound_def sampleProportional_def st_sum_def
      sample_loop.simps findPrefixSum_def st_total_def const_draws_def Let_def)
qed

subsection \<open>Importance weights\<close>

lemma dyadic_replay_eq:
  "dyadic_replay =
     \<lparr> alpha = 1, max_priority = 4,
       idxSum = \<lparr> st_size = 4, st_capacity = 4, tree = [0, 8, 5, 3, 4, 1, 1, 2] \<rparr>,
       batchSize = 2, capacity = 4, position = 0, dimension = 1,
       states = [[1], [2], [3], [4]], actions = [0, 1, 0, 1], rewards = [1, 0, 1, 1],
       nextStates = [[2], [3], [4], [5]], isTerminal = [0, 0, 0, 1], full = True \<rparr>"
  by (simp add: dyadic_replay_def example_replay_def Store_def st_update_def Let_def
      update_priorities_def update_loop.simps recompute.simps uword_to_double_def
      excess_bits.simps)

lemma dyadic_leaf_sum: "leaf_sum (idxSum dyadic_replay) 4 = 8"
  by (simp add: leaf_sum_def dyadic_replay_eq eval_nat_numeral)

lemma dyadic_find:
  "findPrefixSum (idxSum dyadic_replay) (1 / 2) = 0"
  "findPrefixSum (idxSum dyadic_replay) (9 / 2) = 1"
  by (simp_all add: findPrefixSum_def st_total_def dyadic_replay_eq descend.simps)

lemma dyadic_sample:
  "sampleProportional (const_draws (1 / 8)) dyadic_replay = Inr [0, 1]"
proof -
  have ub: "upperBound dyadic_replay = 4" "st_size (idxSum dyadic_replay) = 4"
      "batchSize dyadic_replay = 2"
    by (simp_all add: upperBound_def dyadic_replay_eq)
  have h: "0 < upperBound dyadic_replay"
      "upperBound dyadic_replay \<le> st_size (idxSum dyadic_replay)"
      "upperBound dyadic_replay < 2 ^ 64"
    by (simp_all add: ub)
  have u: "[0..<2] = [0, 1]" by (simp add: upt_rec)
  from sampleProportional_eq [OF h, of "const_draws (1 / 8)"] show ?thesis
    by (simp add: ub dyadic_leaf_sum u const_draws_def dyadic_find)
qed

text \<open>
  Claim C3 says that the weights returned are those of the sampled indices divided by
  their maximum, so that the largest is 1 and all lie in \<open>(0, 1]\<close>. \<^verbatim>\<open>Sample\<close> assigns
  \<^verbatim>\<open>weights(i)\<close> for the sampled indices and never sizes the vector, so an element beyond
  the batch keeps the caller's value, takes part in the maximum and is divided with the
  rest. On the full buffer with leaves 4, 1, 1, 2 and \<open>beta = 1\<close>, the draws \<open>1 / 8\<close> sample
  slots 0 and 1, of different priorities, with weights \<open>1 / 2\<close> and 2 before the division;
  called with a vector of three elements whose third is \<open>- 5\<close>, \<^verbatim>\<open>Sample\<close> returns the
  weights \<open>1 / 4\<close>, 1 and \<open>- 5 / 2\<close>.
\<close>

theorem Sample_divides_stale_weights:
  "batchSize dyadic_replay = 2
   \<and> Sample [0, 0, - 5] 1 (const_draws (1 / 8)) dyadic_replay =
       Inr \<lparr> sampledStates = [[1], [2]], sampledActions = [0, 1], sampledRewards = [1, 0],
             sampledNextStates = [[2], [3]], sampledTerminal = [0, 0],
             sampledIndices = [0, 1],
             weights = [Fin (1 / 4), Fin 1, Fin (- 5 / 2)] \<rparr>"
proof -
  have w: "weight_loop (idxSum dyadic_replay) [0, 1] 4 1 0 [Fin 0, Fin 0, Fin (- 5)]
      = Inr [Fin (1 / 2), Fin 2, Fin (- 5)]"
    by (simp add: dyadic_replay_eq weight_loop.simps st_get_def st_total_def Let_def
      powr_minus_divide)
  have n: "normalize [Fin (1 / 2), Fin 2, Fin (- 5)] = Inr [Fin (1 / 4), Fin 1, Fin (- 5 / 2)]"
    by (simp add: normalize_def max_elem_def)
  have c: "capacity dyadic_replay = 4" "full dyadic_replay" "batchSize dyadic_replay = 2"
      "states dyadic_replay = [[1], [2], [3], [4]]" "actions dyadic_replay = [0, 1, 0, 1]"
      "rewards dyadic_replay = [1, 0, 1, 1]" "nextStates dyadic_replay = [[2], [3], [4], [5]]"
      "isTerminal dyadic_replay = [0, 0, 0, 1]"
    by (simp_all add: dyadic_replay_eq)
  note w' = w [unfolded One_nat_def]
  show ?thesis
    unfolding Sample_def dyadic_sample
    by (simp add: c w' n)
qed

subsection \<open>The sum invariant\<close>

lemma recompute_inv:
  assumes "n < sz" and "2 * sz \<le> length tr"
    and "\<forall>k. 0 < k \<and> k < sz \<and> (\<forall>j. k \<noteq> n div 2 ^ j) \<longrightarrow> tr ! k = tr ! (2 * k) + tr ! (2 * k + 1)"
  shows "\<forall>k. 0 < k \<and> k < sz \<longrightarrow>
           recompute n tr ! k = recompute n tr ! (2 * k) + recompute n tr ! (2 * k + 1)"
  using assms
proof (induction n tr rule: recompute.induct)
  case (1 node tr)
  show ?case
  proof (cases "node = 0")
    case True
    then have r: "recompute node tr = tr" by (subst recompute.simps) simp
    have "tr ! k = tr ! (2 * k) + tr ! (2 * k + 1)" if "0 < k \<and> k < sz" for k
    proof -
      from that True have "\<forall>j. k \<noteq> node div 2 ^ j" by simp
      with "1.prems"(3) that show ?thesis by blast
    qed
    then show ?thesis unfolding r by blast
  next
    case False
    let ?tr = "tr[node := tr ! (2 * node) + tr ! (2 * node + 1)]"
    have r: "recompute node tr = recompute (node div 2) ?tr"
      using False by (subst recompute.simps) simp
    from "1.prems"(1,2) have nl: "node < length tr" by simp
    have p1: "node div 2 < sz" using "1.prems"(1) by simp
    have p2: "2 * sz \<le> length ?tr" using "1.prems"(2) by simp
    have p3: "\<forall>k. 0 < k \<and> k < sz \<and> (\<forall>j. k \<noteq> node div 2 div 2 ^ j) \<longrightarrow>
                ?tr ! k = ?tr ! (2 * k) + ?tr ! (2 * k + 1)"
    proof (intro allI impI)
      fix k assume k: "0 < k \<and> k < sz \<and> (\<forall>j. k \<noteq> node div 2 div 2 ^ j)"
      then have "k \<noteq> node div 2 div 2 ^ 0" by blast
      then have kh: "k \<noteq> node div 2" by simp
      show "?tr ! k = ?tr ! (2 * k) + ?tr ! (2 * k + 1)"
      proof (cases "k = node")
        case True
        with False nl show ?thesis by simp
      next
        case ne: False
        have "k \<noteq> node div 2 ^ j" for j
        proof (cases j)
          case 0
          with ne show ?thesis by simp
        next
          case (Suc j')
          from k have "k \<noteq> node div 2 div 2 ^ j'" by blast
          then show ?thesis unfolding Suc by (simp add: div_mult2_eq)
        qed
        with "1.prems"(3) k have old: "tr ! k = tr ! (2 * k) + tr ! (2 * k + 1)" by blast
        from kh have "2 * k \<noteq> node" "2 * k + 1 \<noteq> node" by auto
        with ne old show ?thesis by simp
      qed
    qed
    from "1.IH" [OF False p1 p2 p3] show ?thesis unfolding r .
  qed
qed

lemma st_update_tree_inv:
  assumes "tree_inv t" and "i < st_capacity t" and "0 \<le> v"
  shows "\<exists>t'. st_update t i v = Inr t' \<and> tree_inv t' \<and> st_size t' = st_size t
           \<and> st_capacity t' = st_capacity t
           \<and> tree t' ! (st_size t + i) = v
           \<and> (\<forall>j. j \<noteq> i \<longrightarrow> tree t' ! (st_size t + j) = tree t ! (st_size t + j))"
proof -
  let ?sz = "st_size t" and ?L = "st_size t + i"
  let ?upd = "(tree t)[?L := v]"
  let ?tr = "recompute (?L div 2) ?upd"
  let ?t = "t\<lparr> tree := ?tr \<rparr>"
  from assms(1) have len: "length (tree t) = 2 * ?sz" by (simp add: tree_inv_def)
  from assms(1) have inv: "\<forall>k. 0 < k \<and> k < ?sz \<longrightarrow> tree t ! k = tree t ! (2 * k) + tree t ! (2 * k + 1)"
    by (simp add: tree_inv_def)
  from assms(1) have nn: "\<forall>j < ?sz. 0 \<le> tree t ! (?sz + j)" by (simp add: tree_inv_def)
  from assms(1) have p2: "\<exists>h. ?sz = 2 ^ h" by (simp add: tree_inv_def)
  from assms(1) have cs: "st_capacity t \<le> ?sz" by (simp add: tree_inv_def)
  with assms(2) have isz: "i < ?sz" by simp
  have up: "st_update t i v = Inr ?t"
    using assms(2) by (simp add: st_update_def Let_def)
  have n: "?L div 2 < ?sz" using isz by simp
  have l0: "2 * ?sz \<le> length ?upd" using len by simp
  have pre: "\<forall>k. 0 < k \<and> k < ?sz \<and> (\<forall>j. k \<noteq> ?L div 2 div 2 ^ j) \<longrightarrow>
               ?upd ! k = ?upd ! (2 * k) + ?upd ! (2 * k + 1)"
  proof (intro allI impI)
    fix k assume k: "0 < k \<and> k < ?sz \<and> (\<forall>j. k \<noteq> ?L div 2 div 2 ^ j)"
    then have "k \<noteq> ?L div 2 div 2 ^ 0" by blast
    then have "k \<noteq> ?L div 2" by simp
    then have "2 * k \<noteq> ?L" "2 * k + 1 \<noteq> ?L" by auto
    moreover from k have "k \<noteq> ?L" by simp
    moreover from inv k have "tree t ! k = tree t ! (2 * k) + tree t ! (2 * k + 1)" by blast
    ultimately show "?upd ! k = ?upd ! (2 * k) + ?upd ! (2 * k + 1)" by simp
  qed
  have inv': "\<forall>k. 0 < k \<and> k < ?sz \<longrightarrow> ?tr ! k = ?tr ! (2 * k) + ?tr ! (2 * k + 1)"
    by (rule recompute_inv [OF n l0 pre])
  have leaf: "?tr ! (?sz + j) = ?upd ! (?sz + j)" for j
    using n by (intro recompute_above) simp
  have Lv: "?tr ! ?L = v" using leaf [of i] len isz by simp
  have other: "?tr ! (?sz + j) = tree t ! (?sz + j)" if "j \<noteq> i" for j
    using leaf [of j] that by simp
  have nn': "0 \<le> ?tr ! (?sz + j)" if "j < ?sz" for j
  proof (cases "j = i")
    case True
    with Lv assms(3) show ?thesis by simp
  next
    case False
    with other [OF False] nn that show ?thesis by simp
  qed
  have "tree_inv ?t"
    using p2 cs len inv' nn' by (simp add: tree_inv_def recompute_length)
  with up Lv other show ?thesis by (intro exI [of _ ?t]) simp
qed

lemma new_SumTree_inv: "cap \<le> 2 ^ k \<Longrightarrow> tree_inv (new_SumTree (2 ^ k) cap)"
proof -
  assume "cap \<le> 2 ^ k"
  moreover have "\<exists>h. (2::nat) ^ k = 2 ^ h" by blast
  ultimately show ?thesis by (simp add: tree_inv_def new_SumTree_def)
qed

lemma uword_to_double_nonneg: "0 \<le> uword_to_double n"
  by (simp add: uword_to_double_def Let_def)

text \<open>
  The invariant \<open>replay_inv\<close> holds for the object the constructor returns (positive
  capacity up to \<open>2 ^ 30\<close>, \<open>alpha\<close> not negative) and is kept by every call of \<^verbatim>\<open>Store\<close>,
  \<^verbatim>\<open>Sample\<close> and \<^verbatim>\<open>update_priorities\<close>, also by the calls that raise. It gives the
  hypotheses on the populated range used for stratified sampling above. The leaf
  written by a completed \<^verbatim>\<open>Store\<close> is the product \<open>max_priority * alpha\<close>.
\<close>

lemma Store_replay_inv:
  assumes "replay_inv b"
  shows "replay_inv (state_of (Store s a r n e b))"
proof -
  from assms have si: "store_inv b" and ti: "tree_inv (idxSum b)"
    and sz: "st_size (idxSum b) \<le> 2 ^ 30" and nn: "0 \<le> alpha b" "0 \<le> max_priority b"
    by (simp_all add: replay_inv_def)
  from si have pos: "position b < st_capacity (idxSum b)" by (simp add: store_inv_def)
  from nn have v: "0 \<le> max_priority b * alpha b" by simp
  from st_update_tree_inv [OF ti pos v] obtain t' where t':
      "st_update (idxSum b) (position b) (max_priority b * alpha b) = Inr t'"
      "tree_inv t'" "st_size t' = st_size (idxSum b)"
      "st_capacity t' = st_capacity (idxSum b)"
    by blast
  from t'(2) have "length (tree t') = 2 * st_size t'" by (simp add: tree_inv_def)
  with si sz nn ti t' show ?thesis
    by (simp add: Store_def Let_def replay_inv_def store_inv_def)
qed

lemma Store_leaf_value:
  assumes "replay_inv b" and "length s = dimension b" and "length n = dimension b"
  shows "\<exists>b'. Store s a r n e b = Done b'
           \<and> st_get (idxSum b') (position b) = Inr (max_priority b * alpha b)"
proof -
  from assms(1) have si: "store_inv b" and ti: "tree_inv (idxSum b)"
    and nn: "0 \<le> alpha b" "0 \<le> max_priority b"
    by (simp_all add: replay_inv_def)
  from si have pos: "position b < st_capacity (idxSum b)" by (simp add: store_inv_def)
  from nn have v: "0 \<le> max_priority b * alpha b" by simp
  from st_update_tree_inv [OF ti pos v] obtain t' where t':
      "st_update (idxSum b) (position b) (max_priority b * alpha b) = Inr t'"
      "st_size t' = st_size (idxSum b)"
      "tree t' ! (st_size (idxSum b) + position b) = max_priority b * alpha b"
    by blast
  from si assms(2,3) t' pos show ?thesis
    by (simp add: Store_def Let_def store_inv_def st_get_def)
qed

lemma update_loop_replay_inv:
  "replay_inv b \<Longrightarrow> replay_inv (state_of (update_loop indices priorities i b))"
proof (induction indices priorities i b rule: update_loop.induct)
  case (1 indices priorities i b)
  show ?case
  proof (cases "i < length indices \<and> i < length priorities \<and> indices ! i < st_capacity (idxSum b)")
    case False
    then consider "\<not> i < length indices" | "i < length indices" "length priorities \<le> i"
      | "i < length indices" "i < length priorities" "st_capacity (idxSum b) \<le> indices ! i"
      by linarith
    then show ?thesis
    proof cases
      case 1
      with "1.prems" show ?thesis by (subst update_loop.simps) simp
    next
      case 2
      with "1.prems" show ?thesis by (subst update_loop.simps) simp
    next
      case 3
      with "1.prems" show ?thesis
        by (subst update_loop.simps) (simp add: st_update_def)
    qed
  next
    case True
    from "1.prems" have ti: "tree_inv (idxSum b)" and nn: "0 \<le> alpha b"
      by (simp_all add: replay_inv_def)
    from nn have v: "0 \<le> alpha b * uword_to_double (priorities ! i)"
      by (simp add: uword_to_double_nonneg)
    from True have ix: "indices ! i < st_capacity (idxSum b)" by simp
    from st_update_tree_inv [OF ti ix v] obtain t' where t':
        "st_update (idxSum b) (indices ! i) (alpha b * uword_to_double (priorities ! i)) = Inr t'"
        "tree_inv t'" "st_size t' = st_size (idxSum b)"
        "st_capacity t' = st_capacity (idxSum b)"
      by blast
    let ?b = "b\<lparr> idxSum := t', max_priority := max (max_priority b) (uword_to_double (priorities ! i)) \<rparr>"
    have unf: "update_loop indices priorities i b = update_loop indices priorities (i + 1) ?b"
      using True t'(1) by (subst update_loop.simps) simp
    from t'(2) have "length (tree t') = 2 * st_size t'" by (simp add: tree_inv_def)
    with "1.prems" t'(2,3,4) have "replay_inv ?b"
      by (simp add: replay_inv_def store_inv_def le_max_iff_disj)
    from "1.IH" [OF _ _ t'(1) this] True show ?thesis unfolding unf by simp
  qed
qed

lemma step_replay_inv: "replay_inv b \<Longrightarrow> replay_inv (step c b)"
  by (cases c) (simp_all add: Store_replay_inv update_loop_replay_inv update_priorities_def)

lemma run_replay_inv: "replay_inv b \<Longrightarrow> replay_inv (run cs b)"
  by (induction cs arbitrary: b) (simp_all add: step_replay_inv)

lemma new_replay_inv:
  assumes "new_PrioritizedReplay bs cap al dm = Some (Inr b0)"
    and "0 < cap" and "cap \<le> 2 ^ 30" and "0 \<le> al"
  shows "replay_inv b0"
proof -
  from size_loop_pow2 [OF assms(3), of 0] obtain k where
    k: "size_loop 1 cap = Some (Inr (2 ^ k))" "k \<le> 30" "cap \<le> 2 ^ k"
    by auto
  from k(2) have "(2::nat) ^ k \<le> 2 ^ 30" by (intro power_increasing) simp_all
  with assms(1,2,4) k(1,3) new_SumTree_inv [OF k(3)] show ?thesis
    by (auto simp: new_PrioritizedReplay_def replay_inv_def store_inv_def new_SumTree_def)
qed

lemma reachable_replay_inv:
  assumes "new_PrioritizedReplay bs cap al dm = Some (Inr b0)"
    and "0 < cap" and "cap \<le> 2 ^ 30" and "0 \<le> al"
  shows "replay_inv (run cs b0)"
  by (rule run_replay_inv [OF new_replay_inv [OF assms]])

lemma replay_inv_sampling_bounds:
  assumes "replay_inv b"
  shows "tree_inv (idxSum b) \<and> upperBound b \<le> capacity b
       \<and> capacity b \<le> st_size (idxSum b) \<and> upperBound b \<le> st_size (idxSum b)
       \<and> upperBound b < 2 ^ 64"
proof -
  from assms have "position b < capacity b" "capacity b \<le> st_size (idxSum b)"
      "st_size (idxSum b) \<le> 2 ^ 30" "tree_inv (idxSum b)"
    by (simp_all add: replay_inv_def store_inv_def)
  moreover have "(2::nat) ^ 30 < 2 ^ 64" by simp
  ultimately show ?thesis by (simp add: upperBound_def)
qed

end
